theory Spec2Isabelle
  imports Main "HOL-Library.Word" "HOL-Library.Multiset" "HOL-Library.Signed_Division"
begin

unbundle bit_operations_syntax

section \<open>The sequence primitive\<close>

text \<open>
  The library's \<open>Iterator[TSource]\<close> is Go's \<open>iter.Seq[TSource]\<close>: a function that takes
  the consumer's callback \<open>yield\<close> and calls it with each element until the elements are
  exhausted or \<open>yield\<close> answers \<open>false\<close>. The body of a \<open>for item := range source\<close> loop is
  such a callback; the variables it assigns are the state \<open>'s\<close> threaded through the
  traversal, and its answer is \<open>True\<close> to continue (also on \<open>continue\<close>) and \<open>False\<close> on
  \<open>break\<close> or \<open>return\<close>. A run-time panic anywhere inside a traversal unwinds through every
  enclosing traversal, so both the callback and the traversal return \<open>panic + _\<close>.

  Function values are HOL functions. A \<open>nil\<close> function is modelled (as \<open>None\<close>) for the
  optional arguments that the source itself compares with \<open>nil\<close>.
\<close>

datatype panic = IndexOutOfRange | NilFunctionCall | UnsupportedType

datatype error =
    ErrSourceContainsNoElements
  | ErrNoElementSatisfiesTheConditionInPredicate
  | ErrMoreThanOneElementSatisfiesTheConditionInPredicate
  | ErrSourceHasMoreThanOneElement
  | ErrSizeIsBelowOne
  | ErrIndexOutOfRange

type_synonym ('a, 's) yield = "'a \<Rightarrow> 's \<Rightarrow> panic + (bool \<times> 's)"
type_synonym ('a, 's) Iterator = "('a, 's) yield \<Rightarrow> 's \<Rightarrow> panic + 's"

text \<open>Go's \<open>int\<close> on the 64-bit platforms.\<close>
type_synonym go_int = "64 word"

fun FromSlice :: "'a list \<Rightarrow> ('a, 's) Iterator" where
  "FromSlice [] yield s = Inr s"
| "FromSlice (v # source) yield s =
     (case yield v s of
        Inl p \<Rightarrow> Inl p
      | Inr (continue, s') \<Rightarrow> if \<not> continue then Inr s' else FromSlice source yield s')"

definition ToSlice :: "('a, 'a list) Iterator \<Rightarrow> panic + 'a list" where
  "ToSlice source = source (\<lambda>item result. Inr (True, result @ [item])) []"

section \<open>Aggregate operators\<close>



text \<open>
  \<open>Sum\<close> is generic in \<open>generic.Number | generic.String\<close>; the element type's zero value
  (the initial \<open>result\<close>) and its \<open>+\<close> are the parameters \<open>zeroValue\<close> and \<open>add\<close>.
\<close>

definition Sum :: "'a \<Rightarrow> ('a \<Rightarrow> 'a \<Rightarrow> 'a) \<Rightarrow> ('a, 'a) Iterator \<Rightarrow> panic + 'a" where
  "Sum zeroValue add source = source (\<lambda>item result. Inr (True, add result item)) zeroValue"

text \<open>
  \<open>Average\<close> accumulates \<open>sum\<close> and \<open>count\<close> and divides as \<open>float64\<close>; the conversion
  and the division are the parameter \<open>toAverage\<close>, and \<open>fzero\<close> is the zero \<open>float64\<close>
  returned with the error.
\<close>

definition Average ::
  "'a \<Rightarrow> ('a \<Rightarrow> 'a \<Rightarrow> 'a) \<Rightarrow> ('a \<Rightarrow> go_int \<Rightarrow> 'f) \<Rightarrow> 'f \<Rightarrow> ('a, go_int \<times> 'a) Iterator
     \<Rightarrow> panic + ('f \<times> error option)" where
  "Average zeroValue add toAverage fzero source =
     (case source (\<lambda>item (countv, sumv). Inr (True, (countv + 1, add sumv item))) (0, zeroValue) of
        Inl p \<Rightarrow> Inl p
      | Inr (countv, sumv) \<Rightarrow>
          if countv = 0 then Inr (fzero, Some ErrSourceContainsNoElements)
          else Inr (toAverage sumv countv, None))"


text \<open>
  The selection methods return Go's pair \<open>(result TSource, err error)\<close>; \<open>err\<close> is
  \<open>None\<close> for \<open>nil\<close>, and \<open>zeroValue\<close> stands for \<open>*new(TSource)\<close>. The optional
  \<open>predicate ...generic.Predicate[TSource]\<close> is a list of possibly-\<open>nil\<close> functions;
  \<open>len(predicate) > 0 && predicate[0] != nil\<close> is the first pattern of the \<open>case\<close>.
  The traversal state holds the local variables the loop body assigns, and \<open>ret\<close>, the
  value of a \<open>return\<close> executed inside the loop.
\<close>

definition First ::
  "'a \<Rightarrow> ('a, bool \<times> ('a \<times> error option) option) Iterator \<Rightarrow> ('a \<Rightarrow> bool) option list
     \<Rightarrow> panic + ('a \<times> error option)" where
  "First zeroValue source predicate =
     (case predicate of
        Some Predicate # _ \<Rightarrow>
          (case source (\<lambda>item (any, ret).
                   if Predicate item then Inr (False, (True, Some (item, None)))
                   else Inr (True, (True, ret))) (False, None) of
             Inl p \<Rightarrow> Inl p
           | Inr (any, Some ret) \<Rightarrow> Inr ret
           | Inr (any, None) \<Rightarrow>
               if \<not> any then Inr (zeroValue, Some ErrSourceContainsNoElements)
               else Inr (zeroValue, Some ErrNoElementSatisfiesTheConditionInPredicate))
      | _ \<Rightarrow>
          (case source (\<lambda>item (any, ret). Inr (False, (any, Some (item, None)))) (False, None) of
             Inl p \<Rightarrow> Inl p
           | Inr (any, Some ret) \<Rightarrow> Inr ret
           | Inr (any, None) \<Rightarrow> Inr (zeroValue, Some ErrSourceContainsNoElements)))"

definition Last ::
  "'a \<Rightarrow> ('a, bool \<times> bool \<times> 'a) Iterator \<Rightarrow> ('a \<Rightarrow> bool) option list
     \<Rightarrow> panic + ('a \<times> error option)" where
  "Last zeroValue source predicate =
     (case predicate of
        Some Predicate # _ \<Rightarrow>
          (case source (\<lambda>item (any, found, result).
                   if Predicate item then Inr (True, (True, True, item))
                   else Inr (True, (True, found, result))) (False, False, zeroValue) of
             Inl p \<Rightarrow> Inl p
           | Inr (any, found, result) \<Rightarrow>
               if found then Inr (result, None)
               else if \<not> any then Inr (zeroValue, Some ErrSourceContainsNoElements)
               else Inr (zeroValue, Some ErrNoElementSatisfiesTheConditionInPredicate))
      | _ \<Rightarrow>
          (case source (\<lambda>item (any, found, result). Inr (True, (any, True, item)))
                  (False, False, zeroValue) of
             Inl p \<Rightarrow> Inl p
           | Inr (any, found, result) \<Rightarrow>
               if found then Inr (result, None)
               else Inr (zeroValue, Some ErrSourceContainsNoElements)))"

definition Single ::
  "'a \<Rightarrow> ('a, bool \<times> bool \<times> 'a \<times> ('a \<times> error option) option) Iterator
     \<Rightarrow> ('a \<Rightarrow> bool) option list \<Rightarrow> panic + ('a \<times> error option)" where
  "Single zeroValue source predicate =
     (case predicate of
        Some Predicate # _ \<Rightarrow>
          (case source (\<lambda>item (any, found, result, ret).
                   if Predicate item then
                     if found then
                       Inr (False, (True, found, result,
                         Some (zeroValue, Some ErrMoreThanOneElementSatisfiesTheConditionInPredicate)))
                     else Inr (True, (True, True, item, ret))
                   else Inr (True, (True, found, result, ret)))
                  (False, False, zeroValue, None) of
             Inl p \<Rightarrow> Inl p
           | Inr (any, found, result, Some ret) \<Rightarrow> Inr ret
           | Inr (any, found, result, None) \<Rightarrow>
               if found then Inr (result, None)
               else if \<not> any then Inr (zeroValue, Some ErrSourceContainsNoElements)
               else Inr (zeroValue, Some ErrNoElementSatisfiesTheConditionInPredicate))
      | _ \<Rightarrow>
          (case source (\<lambda>item (any, found, result, ret).
                   if found then
                     Inr (False, (any, found, result,
                       Some (zeroValue, Some ErrSourceHasMoreThanOneElement)))
                   else Inr (True, (any, True, item, ret)))
                  (False, False, zeroValue, None) of
             Inl p \<Rightarrow> Inl p
           | Inr (any, found, result, Some ret) \<Rightarrow> Inr ret
           | Inr (any, found, result, None) \<Rightarrow>
               if \<not> found then Inr (zeroValue, Some ErrSourceContainsNoElements)
               else Inr (result, None)))"

section \<open>Element operators\<close>

text \<open>
  \<open>TakeWhile\<close>: the loop body returns from the iterator as soon as \<open>predicate(item)\<close>
  holds, and otherwise hands the element to \<open>yield\<close> and passes its answer on.
\<close>

definition TakeWhile_body :: "('a \<Rightarrow> bool) \<Rightarrow> ('a, 's) yield \<Rightarrow> ('a, 's) yield" where
  "TakeWhile_body predicate yield = (\<lambda>item s. if predicate item then Inr (False, s) else yield item s)"

definition TakeWhile :: "('a, 's) Iterator \<Rightarrow> ('a \<Rightarrow> bool) \<Rightarrow> ('a, 's) Iterator" where
  "TakeWhile source predicate yield s = source (TakeWhile_body predicate yield) s"

text \<open>\<open>SkipWhile\<close>: the local \<open>skip\<close> starts as \<open>true\<close> and is part of the traversal state.\<close>

definition SkipWhile :: "('a, bool \<times> 's) Iterator \<Rightarrow> ('a \<Rightarrow> bool) \<Rightarrow> ('a, 's) Iterator" where
  "SkipWhile source predicate yield s =
     (case source (\<lambda>item (skip, s).
              if skip \<and> \<not> predicate item then Inr (True, (skip, s))
              else (case yield item s of
                      Inl p \<Rightarrow> Inl p
                    | Inr (continue, s') \<Rightarrow> Inr (continue, (False, s')))) (True, s) of
        Inl p \<Rightarrow> Inl p
      | Inr (skip, s') \<Rightarrow> Inr s')"

text \<open>
  \<open>Reverse\<close> collects the source into the slice \<open>reverse\<close> and then runs
  \<open>for i := len(reverse); i >= 0; i--\<close>, reading \<open>reverse[i]\<close>. Go checks the index of a
  slice read and panics when it is not below the length.
\<close>

function Reverse_loop :: "'a list \<Rightarrow> int \<Rightarrow> ('a, 's) yield \<Rightarrow> 's \<Rightarrow> panic + 's" where
  "Reverse_loop reverse i yield s =
     (if i \<ge> 0 then
        if nat i < length reverse then
          (case yield (reverse ! nat i) s of
             Inl p \<Rightarrow> Inl p
           | Inr (continue, s') \<Rightarrow>
               if \<not> continue then Inr s' else Reverse_loop reverse (i - 1) yield s')
        else Inl IndexOutOfRange
      else Inr s)"
  by pat_completeness auto
termination
  by (relation "measure (\<lambda>(reverse, i, yield, s). nat (i + 1))") auto

definition Reverse :: "('a, 'a list) Iterator \<Rightarrow> ('a, 's) Iterator" where
  "Reverse source yield s =
     (case source (\<lambda>item reverse. Inr (True, reverse @ [item])) [] of
        Inl p \<Rightarrow> Inl p
      | Inr reverse \<Rightarrow> Reverse_loop reverse (int (length reverse)) yield s)"

section \<open>Set and relational operators\<close>

text \<open>
  Equality resolution. An explicit non-\<open>nil\<close> comparer comes first. Whether \<open>TSource\<close>
  implements \<open>generic.IEquatable[TSource]\<close> is a property of the element type: the
  parameter \<open>equatable\<close> is its \<open>Equal\<close> method when it does. In \<open>Contains\<close>, \<open>Distinct\<close>
  and \<open>Except\<close>, which are used at \<open>int\<close> below, \<open>reflect.Value.Equal\<close> and
  \<open>reflect.DeepEqual\<close> are the equality of the integers, HOL's \<open>=\<close>. \<open>SequenceEqual\<close> takes
  \<open>reflect.DeepEqual\<close> at its element type as the parameter \<open>DeepEqual\<close>: it is not
  reflexive at every type, a \<open>NaN\<close> is not deeply equal to itself.
\<close>

definition Contains ::
  "('a \<Rightarrow> 'a \<Rightarrow> bool) option \<Rightarrow> ('a, bool) Iterator \<Rightarrow> 'a \<Rightarrow> ('a \<Rightarrow> 'a \<Rightarrow> bool) option list
     \<Rightarrow> panic + bool" where
  "Contains equatable source v comparer =
     (case comparer of
        Some Equal # _ \<Rightarrow>
          source (\<lambda>item ret. if Equal item v then Inr (False, True) else Inr (True, ret)) False
      | _ \<Rightarrow>
          (case equatable of
             Some Equal \<Rightarrow>
               source (\<lambda>item ret. if Equal v item then Inr (False, True) else Inr (True, ret)) False
           | None \<Rightarrow>
               source (\<lambda>item ret. if v = item then Inr (False, True) else Inr (True, ret)) False))"

text \<open>The second loop of \<open>Distinct\<close>, over the slice \<open>result\<close>, is the loop of \<open>FromSlice\<close>.\<close>

definition Distinct ::
  "('a \<Rightarrow> 'a \<Rightarrow> bool) option \<Rightarrow> ('a, 'a list) Iterator \<Rightarrow> ('a \<Rightarrow> 'a \<Rightarrow> bool) option list
     \<Rightarrow> ('a, 's) Iterator" where
  "Distinct equatable source comparer yield s =
     (case source (\<lambda>item result.
              case Contains equatable (FromSlice result) item comparer of
                Inl p \<Rightarrow> Inl p
              | Inr c \<Rightarrow> if \<not> c then Inr (True, result @ [item]) else Inr (True, result)) [] of
        Inl p \<Rightarrow> Inl p
      | Inr result \<Rightarrow> FromSlice result yield s)"

text \<open>
  The three branches of \<open>Except\<close> are the same pair of nested loops and differ in the
  arguments given to \<open>Distinct\<close> and in the test applied to \<open>item\<close> and \<open>other\<close>;
  \<open>Except_loops\<close> is that pair of loops. The inner loop's state carries whether the
  body returned from the iterator. The first branch takes \<open>comparer[0]\<close> without comparing
  it with \<open>nil\<close>; calling a \<open>nil\<close> function panics.
\<close>

definition Except_loops ::
  "('a \<Rightarrow> 'a \<Rightarrow> bool) option \<Rightarrow> ('a, 'a list) Iterator \<Rightarrow> ('a, 'a list) Iterator
     \<Rightarrow> ('a \<Rightarrow> 'a \<Rightarrow> bool) option list \<Rightarrow> ('a \<Rightarrow> 'a \<Rightarrow> panic + bool) \<Rightarrow> ('a, 's) Iterator" where
  "Except_loops equatable source sequence comparer test yield s =
     Distinct equatable source comparer (\<lambda>item s.
       case Distinct equatable sequence comparer (\<lambda>other (returned, s).
              case test item other of
                Inl p \<Rightarrow> Inl p
              | Inr b \<Rightarrow>
                  if b then
                    (case yield item s of
                       Inl p \<Rightarrow> Inl p
                     | Inr (continue, s') \<Rightarrow>
                         if \<not> continue then Inr (False, (True, s')) else Inr (True, (returned, s')))
                  else Inr (True, (returned, s))) (False, s) of
         Inl p \<Rightarrow> Inl p
       | Inr (returned, s') \<Rightarrow> Inr (\<not> returned, s')) s"

definition Except ::
  "('a \<Rightarrow> 'a \<Rightarrow> bool) option \<Rightarrow> ('a, 'a list) Iterator \<Rightarrow> ('a, 'a list) Iterator
     \<Rightarrow> ('a \<Rightarrow> 'a \<Rightarrow> bool) option list \<Rightarrow> ('a, 's) Iterator" where
  "Except equatable source sequence comparer =
     (if length comparer > 0 then
        Except_loops equatable source sequence [comparer ! 0]
          (\<lambda>item other. case comparer ! 0 of
                           None \<Rightarrow> Inl NilFunctionCall
                         | Some isEqual \<Rightarrow> Inr (isEqual item other))
      else
        (case equatable of
           Some Equal \<Rightarrow>
             Except_loops equatable source sequence [] (\<lambda>item other. Inr (Equal item other))
         | None \<Rightarrow>
             Except_loops equatable source sequence [] (\<lambda>item other. Inr (item = other))))"





section \<open>Minimum and maximum\<close>

text \<open>
  Ordering resolution of the methods \<open>Min\<close> and \<open>Max\<close>: a supplied comparer
  (\<open>len(compare) > 0\<close>), else the \<open>Compare\<close> method when \<open>TSource\<close> implements
  \<open>generic.IComparable[TSource]\<close> (the parameter \<open>comparable\<close>), else the type switch
  over the primitive kinds, which calls \<open>minmax\<close> with the kind's \<open><\<close> (the parameter
  \<open>primitive\<close>; \<open>None\<close> is the \<open>default\<close> case, which panics). \<open>value > max\<close> is
  \<open>lt max value\<close>. One state type serves the three branches: \<open>found\<close>, \<open>min\<close> and
  \<open>max\<close> (here \<open>minv\<close> and \<open>maxv\<close>); \<open>Min\<close> leaves \<open>maxv\<close> alone and \<open>Max\<close> \<open>minv\<close>.
  In the second branch the receiver \<open>v\<close> of \<open>Compare\<close> is the value the variable had
  before the loop, the zero value.
\<close>

definition minmax ::
  "'a \<Rightarrow> ('a \<Rightarrow> 'a \<Rightarrow> bool) \<Rightarrow> ('a, bool \<times> 'a \<times> 'a) Iterator \<Rightarrow> panic + ('a \<times> 'a \<times> error option)" where
  "minmax zeroValue lt source =
     (case source (\<lambda>item (found, minv, maxv).
              if \<not> found then Inr (True, (True, item, item))
              else if lt item minv then Inr (True, (found, item, maxv))
              else if lt maxv item then Inr (True, (found, minv, item))
              else Inr (True, (found, minv, maxv))) (False, zeroValue, zeroValue) of
        Inl p \<Rightarrow> Inl p
      | Inr (found, minv, maxv) \<Rightarrow>
          if \<not> found then Inr (zeroValue, zeroValue, Some ErrSourceContainsNoElements)
          else Inr (minv, maxv, None))"

definition Iterator_Max ::
  "'a \<Rightarrow> ('a \<Rightarrow> 'a \<Rightarrow> int) option \<Rightarrow> ('a \<Rightarrow> 'a \<Rightarrow> bool) option \<Rightarrow> ('a, bool \<times> 'a \<times> 'a) Iterator
     \<Rightarrow> ('a \<Rightarrow> 'a \<Rightarrow> int) list \<Rightarrow> panic + ('a \<times> error option)" where
  "Iterator_Max zeroValue comparable primitive source compare =
     (if length compare > 0 then
        (case source (\<lambda>item (found, minv, maxv).
                 if \<not> found then Inr (True, (True, minv, item))
                 else if (compare ! 0) maxv item > 0 then Inr (True, (found, minv, item))
                 else Inr (True, (found, minv, maxv))) (False, zeroValue, zeroValue) of
           Inl p \<Rightarrow> Inl p
         | Inr (found, minv, maxv) \<Rightarrow>
             if \<not> found then Inr (maxv, Some ErrSourceContainsNoElements)
             else Inr (maxv, None))
      else
        (case comparable of
           Some Compare \<Rightarrow>
             (case source (\<lambda>item (found, minv, maxv).
                      if \<not> found then Inr (True, (True, minv, item))
                      else if Compare zeroValue item > 0 then Inr (True, (found, minv, item))
                      else Inr (True, (found, minv, maxv))) (False, zeroValue, zeroValue) of
                Inl p \<Rightarrow> Inl p
              | Inr (found, minv, maxv) \<Rightarrow>
                  if \<not> found then Inr (maxv, Some ErrSourceContainsNoElements)
                  else Inr (maxv, None))
         | None \<Rightarrow>
             (case primitive of
                Some lt \<Rightarrow>
                  (case minmax zeroValue lt source of
                     Inl p \<Rightarrow> Inl p
                   | Inr (minv, maxv, err) \<Rightarrow> Inr (maxv, err))
              | None \<Rightarrow> Inl UnsupportedType)))"

definition Iterator_Min ::
  "'a \<Rightarrow> ('a \<Rightarrow> 'a \<Rightarrow> int) option \<Rightarrow> ('a \<Rightarrow> 'a \<Rightarrow> bool) option \<Rightarrow> ('a, bool \<times> 'a \<times> 'a) Iterator
     \<Rightarrow> ('a \<Rightarrow> 'a \<Rightarrow> int) list \<Rightarrow> panic + ('a \<times> error option)" where
  "Iterator_Min zeroValue comparable primitive source compare =
     (if length compare > 0 then
        (case source (\<lambda>item (found, minv, maxv).
                 if \<not> found then Inr (True, (True, item, maxv))
                 else if (compare ! 0) minv item < 0 then Inr (True, (found, item, maxv))
                 else Inr (True, (found, minv, maxv))) (False, zeroValue, zeroValue) of
           Inl p \<Rightarrow> Inl p
         | Inr (found, minv, maxv) \<Rightarrow>
             if \<not> found then Inr (minv, Some ErrSourceContainsNoElements)
             else Inr (minv, None))
      else
        (case comparable of
           Some Compare \<Rightarrow>
             (case source (\<lambda>item (found, minv, maxv).
                      if \<not> found then Inr (True, (True, item, maxv))
                      else if Compare zeroValue item < 0 then Inr (True, (found, item, maxv))
                      else Inr (True, (found, minv, maxv))) (False, zeroValue, zeroValue) of
                Inl p \<Rightarrow> Inl p
              | Inr (found, minv, maxv) \<Rightarrow>
                  if \<not> found then Inr (minv, Some ErrSourceContainsNoElements)
                  else Inr (minv, None))
         | None \<Rightarrow>
             (case primitive of
                Some lt \<Rightarrow>
                  (case minmax zeroValue lt source of
                     Inl p \<Rightarrow> Inl p
                   | Inr (minv, maxv, err) \<Rightarrow> Inr (minv, err))
              | None \<Rightarrow> Inl UnsupportedType)))"

text \<open>The three-way comparison of two \<open>int\<close>s, \<open>cmp.Compare\<close>.\<close>

definition cmp_Compare :: "go_int \<Rightarrow> go_int \<Rightarrow> int" where
  "cmp_Compare x y = (if x <s y then -1 else if y <s x then 1 else 0)"








text \<open>
  A source that keeps a record of the elements it hands over, and a consumer that does
  not see the record: \<open>recording source\<close> runs \<open>source\<close> and appends each element to the
  record, the first component of the state, before it passes the element on;
  \<open>downstream yield\<close> runs \<open>yield\<close> on the rest of the state. They are used to state how
  far an operator pulls its source.
\<close>

definition recording :: "('a, 'a list \<times> 's) Iterator \<Rightarrow> ('a, 'a list \<times> 's) Iterator" where
  "recording source yield = source (\<lambda>item (record, s). yield item (record @ [item], s))"

definition downstream :: "('a, 's) yield \<Rightarrow> ('a, 'a list \<times> 's) yield" where
  "downstream yield =
     (\<lambda>item (record, s).
        case yield item s of
          Inl p \<Rightarrow> Inl p
        | Inr (continue, s') \<Rightarrow> Inr (continue, (record, s')))"

text \<open>The predicate of the test suite, \<open>object%3 == 0\<close> on \<open>int\<close>.\<close>

definition multiple_of_3 :: "go_int \<Rightarrow> bool" where
  "multiple_of_3 object = (sint object smod 3 = 0)"

section \<open>Go's \<open>slices.SortFunc\<close>\<close>

text \<open>
  The ordering operators sort with \<open>slices.SortFunc\<close> of Go's standard library, which is
  not part of the repository. It is modelled here function by function from the
  library's pattern-defeating quicksort (\<open>pdqsortCmpFunc\<close> and its helpers, in the file
  \<open>zsortanyfunc.go\<close> of the package \<open>slices\<close>): a slice is
  a list, an index is Go's \<open>int\<close>, \<open>at data i\<close> is the read \<open>data[i]\<close> and
  \<open>swap data i j\<close> the assignment \<open>data[i], data[j] = data[j], data[i]\<close>. Each loop is a
  recursive function on the variables the loop changes, named after the function it belongs
  to. Go's \<open>/\<close> on \<open>int\<close> truncates (\<open>sdiv\<close>).
\<close>

definition at :: "'a list \<Rightarrow> int \<Rightarrow> 'a" where
  "at data i = data ! nat i"

definition swap :: "'a list \<Rightarrow> int \<Rightarrow> int \<Rightarrow> 'a list" where
  "swap data i j = data[nat i := at data j, nat j := at data i]"

text \<open>
  \<open>insertionSortCmpFunc\<close>: the inner loop moves \<open>data[j]\<close> down while it is less than
  its left neighbour; the outer loop runs \<open>i\<close> from \<open>a + 1\<close> to \<open>b\<close>.
\<close>

function insertionSort_inner :: "'a list \<Rightarrow> int \<Rightarrow> int \<Rightarrow> ('a \<Rightarrow> 'a \<Rightarrow> int) \<Rightarrow> 'a list" where
  "insertionSort_inner data a j cmp =
     (if j > a \<and> cmp (at data j) (at data (j - 1)) < 0
      then insertionSort_inner (swap data j (j - 1)) a (j - 1) cmp
      else data)"
  by pat_completeness auto
termination
  by (relation "measure (\<lambda>(data, a, j, cmp). nat (j - a))") auto

declare insertionSort_inner.simps [simp del]

function insertionSort_outer :: "'a list \<Rightarrow> int \<Rightarrow> int \<Rightarrow> int \<Rightarrow> ('a \<Rightarrow> 'a \<Rightarrow> int) \<Rightarrow> 'a list" where
  "insertionSort_outer data a b i cmp =
     (if i < b then insertionSort_outer (insertionSort_inner data a i cmp) a b (i + 1) cmp
      else data)"
  by pat_completeness auto
termination
  by (relation "measure (\<lambda>(data, a, b, i, cmp). nat (b - i))") auto

declare insertionSort_outer.simps [simp del]

definition insertionSortCmpFunc :: "'a list \<Rightarrow> int \<Rightarrow> int \<Rightarrow> ('a \<Rightarrow> 'a \<Rightarrow> int) \<Rightarrow> 'a list" where
  "insertionSortCmpFunc data a b cmp = insertionSort_outer data a b (a + 1) cmp"

text \<open>
  \<open>siftDownCmpFunc\<close> and \<open>heapSortCmpFunc\<close>. The heap's node \<open>n\<close> is \<open>data[first + n]\<close>.
  The callers pass \<open>root \<ge> 0\<close>; for a negative \<open>root\<close> Go's loop would run into a negative
  index, and the model stops there, which makes the recursion well-founded on all integers.
\<close>

function siftDown_loop :: "'a list \<Rightarrow> int \<Rightarrow> int \<Rightarrow> int \<Rightarrow> ('a \<Rightarrow> 'a \<Rightarrow> int) \<Rightarrow> 'a list" where
  "siftDown_loop data root hi first cmp =
     (let child = 2 * root + 1 in
      if child \<ge> hi \<or> root < 0 then data
      else
        let child = (if child + 1 < hi \<and> cmp (at data (first + child)) (at data (first + child + 1)) < 0
                     then child + 1 else child) in
        if \<not> (cmp (at data (first + root)) (at data (first + child)) < 0) then data
        else siftDown_loop (swap data (first + root) (first + child)) child hi first cmp)"
  by pat_completeness auto
termination
  by (relation "measure (\<lambda>(data, root, hi, first, cmp). nat (hi - root))") (auto simp: Let_def)

declare siftDown_loop.simps [simp del]

definition siftDownCmpFunc :: "'a list \<Rightarrow> int \<Rightarrow> int \<Rightarrow> int \<Rightarrow> ('a \<Rightarrow> 'a \<Rightarrow> int) \<Rightarrow> 'a list" where
  "siftDownCmpFunc data lo hi first cmp = siftDown_loop data lo hi first cmp"

function heapSort_build :: "'a list \<Rightarrow> int \<Rightarrow> int \<Rightarrow> int \<Rightarrow> ('a \<Rightarrow> 'a \<Rightarrow> int) \<Rightarrow> 'a list" where
  "heapSort_build data i hi first cmp =
     (if i \<ge> 0 then heapSort_build (siftDownCmpFunc data i hi first cmp) (i - 1) hi first cmp
      else data)"
  by pat_completeness auto
termination
  by (relation "measure (\<lambda>(data, i, hi, first, cmp). nat (i + 1))") auto

declare heapSort_build.simps [simp del]

function heapSort_pop :: "'a list \<Rightarrow> int \<Rightarrow> int \<Rightarrow> int \<Rightarrow> ('a \<Rightarrow> 'a \<Rightarrow> int) \<Rightarrow> 'a list" where
  "heapSort_pop data i lo first cmp =
     (if i \<ge> 0 then
        heapSort_pop (siftDownCmpFunc (swap data first (first + i)) lo i first cmp) (i - 1) lo first cmp
      else data)"
  by pat_completeness auto
termination
  by (relation "measure (\<lambda>(data, i, lo, first, cmp). nat (i + 1))") auto

declare heapSort_pop.simps [simp del]

definition heapSortCmpFunc :: "'a list \<Rightarrow> int \<Rightarrow> int \<Rightarrow> ('a \<Rightarrow> 'a \<Rightarrow> int) \<Rightarrow> 'a list" where
  "heapSortCmpFunc data a b cmp =
     (let first = a; lo = 0; hi = b - a;
          data = heapSort_build data ((hi - 1) sdiv 2) hi first cmp
      in heapSort_pop data (hi - 1) lo first cmp)"

text \<open>
  \<open>choosePivotCmpFunc\<close>: the median of three positions, or of three medians of adjacent
  positions for 50 elements and more; \<open>swaps\<close> counts the exchanges \<open>order2CmpFunc\<close>
  made and gives the hint.
\<close>

datatype sortedHint = unknownHint | increasingHint | decreasingHint

definition order2CmpFunc :: "'a list \<Rightarrow> int \<Rightarrow> int \<Rightarrow> int \<Rightarrow> ('a \<Rightarrow> 'a \<Rightarrow> int) \<Rightarrow> int \<times> int \<times> int" where
  "order2CmpFunc data a b swaps cmp =
     (if cmp (at data b) (at data a) < 0 then (b, a, swaps + 1) else (a, b, swaps))"

definition medianCmpFunc :: "'a list \<Rightarrow> int \<Rightarrow> int \<Rightarrow> int \<Rightarrow> int \<Rightarrow> ('a \<Rightarrow> 'a \<Rightarrow> int) \<Rightarrow> int \<times> int" where
  "medianCmpFunc data a b c swaps cmp =
     (case order2CmpFunc data a b swaps cmp of (a, b, swaps) \<Rightarrow>
      case order2CmpFunc data b c swaps cmp of (b, c, swaps) \<Rightarrow>
      case order2CmpFunc data a b swaps cmp of (a, b, swaps) \<Rightarrow> (b, swaps))"

definition medianAdjacentCmpFunc :: "'a list \<Rightarrow> int \<Rightarrow> int \<Rightarrow> ('a \<Rightarrow> 'a \<Rightarrow> int) \<Rightarrow> int \<times> int" where
  "medianAdjacentCmpFunc data a swaps cmp = medianCmpFunc data (a - 1) a (a + 1) swaps cmp"

definition choosePivotCmpFunc :: "'a list \<Rightarrow> int \<Rightarrow> int \<Rightarrow> ('a \<Rightarrow> 'a \<Rightarrow> int) \<Rightarrow> int \<times> sortedHint" where
  "choosePivotCmpFunc data a b cmp =
     (let l = b - a;
          swaps = 0;
          i = a + l sdiv 4 * 1;
          j = a + l sdiv 4 * 2;
          k = a + l sdiv 4 * 3;
          (j, swaps) =
            (if l \<ge> 8 then
               (case (if l \<ge> 50 then
                        (case medianAdjacentCmpFunc data i swaps cmp of (i, swaps) \<Rightarrow>
                         case medianAdjacentCmpFunc data j swaps cmp of (j, swaps) \<Rightarrow>
                         case medianAdjacentCmpFunc data k swaps cmp of (k, swaps) \<Rightarrow>
                           (i, j, k, swaps))
                      else (i, j, k, swaps)) of
                  (i, j, k, swaps) \<Rightarrow> medianCmpFunc data i j k swaps cmp)
             else (j, swaps))
      in if swaps = 0 then (j, increasingHint)
         else if swaps = 4 * 3 then (j, decreasingHint)
         else (j, unknownHint))"

text \<open>\<open>reverseRangeCmpFunc\<close>.\<close>

function reverseRange_loop :: "'a list \<Rightarrow> int \<Rightarrow> int \<Rightarrow> 'a list" where
  "reverseRange_loop data i j =
     (if i < j then reverseRange_loop (swap data i j) (i + 1) (j - 1) else data)"
  by pat_completeness auto
termination
  by (relation "measure (\<lambda>(data, i, j). nat (j - i))") auto

declare reverseRange_loop.simps [simp del]

definition reverseRangeCmpFunc :: "'a list \<Rightarrow> int \<Rightarrow> int \<Rightarrow> ('a \<Rightarrow> 'a \<Rightarrow> int) \<Rightarrow> 'a list" where
  "reverseRangeCmpFunc data a b cmp = reverseRange_loop data a (b - 1)"

text \<open>
  \<open>breakPatternsCmpFunc\<close> swaps three elements around the middle with elements at
  pseudo-random positions. \<open>xorshift_Next\<close> is the method \<open>Next\<close> of the generator
  \<open>xorshift\<close>, a \<open>uint64\<close>; \<open>bits_Len\<close> is \<open>bits.Len\<close>. Nothing proved below depends on the
  values drawn, only on their reduction to the range of the slice.
\<close>

definition xorshift_Next :: "64 word \<Rightarrow> 64 word" where
  "xorshift_Next r =
     (let r = r XOR push_bit 13 r;
          r = r XOR drop_bit 7 r;
          r = r XOR push_bit 17 r
      in r)"

function bits_Len :: "64 word \<Rightarrow> nat" where
  "bits_Len x = (if x = 0 then 0 else 1 + bits_Len (drop_bit 1 x))"
  by pat_completeness auto
termination
  by (relation "measure unat") (auto simp: unat_div unat_gt_0 drop_bit_eq_div)

declare bits_Len.simps [simp del]

definition nextPowerOfTwo :: "int \<Rightarrow> 64 word" where
  "nextPowerOfTwo len = push_bit (bits_Len (word_of_int len)) 1"

function breakPatterns_loop ::
  "'a list \<Rightarrow> int \<Rightarrow> int \<Rightarrow> int \<Rightarrow> 64 word \<Rightarrow> 64 word \<Rightarrow> int \<Rightarrow> 'a list" where
  "breakPatterns_loop data a len idx random modulus i =
     (if i < 3 then
        let random = xorshift_Next random;
            other = sint (random AND (modulus - 1));
            other = (if other \<ge> len then other - len else other)
        in breakPatterns_loop (swap data (idx + i) (a + other)) a len idx random modulus (i + 1)
      else data)"
  by pat_completeness auto
termination
  by (relation "measure (\<lambda>(data, a, len, idx, random, modulus, i). nat (3 - i))") auto

declare breakPatterns_loop.simps [simp del]

definition breakPatternsCmpFunc :: "'a list \<Rightarrow> int \<Rightarrow> int \<Rightarrow> ('a \<Rightarrow> 'a \<Rightarrow> int) \<Rightarrow> 'a list" where
  "breakPatternsCmpFunc data a b cmp =
     (let len = b - a in
      if len \<ge> 8 then
        breakPatterns_loop data a len (a + (len sdiv 4) * 2 - 1) (word_of_int len)
          (nextPowerOfTwo len) 0
      else data)"

text \<open>
  \<open>partitionCmpFunc\<close>: \<open>partition_up\<close> and \<open>partition_down\<close> are the two inner loops that
  move \<open>i\<close> up and \<open>j\<close> down, \<open>partition_loop\<close> is the \<open>for\<close> loop around them. The
  result is the slice, the new position of the pivot and \<open>alreadyPartitioned\<close>.
\<close>

function partition_up :: "'a list \<Rightarrow> int \<Rightarrow> int \<Rightarrow> int \<Rightarrow> ('a \<Rightarrow> 'a \<Rightarrow> int) \<Rightarrow> int" where
  "partition_up data a i j cmp =
     (if i \<le> j \<and> cmp (at data i) (at data a) < 0 then partition_up data a (i + 1) j cmp else i)"
  by pat_completeness auto
termination
  by (relation "measure (\<lambda>(data, a, i, j, cmp). nat (j + 1 - i))") auto

declare partition_up.simps [simp del]

function partition_down :: "'a list \<Rightarrow> int \<Rightarrow> int \<Rightarrow> int \<Rightarrow> ('a \<Rightarrow> 'a \<Rightarrow> int) \<Rightarrow> int" where
  "partition_down data a i j cmp =
     (if i \<le> j \<and> \<not> (cmp (at data j) (at data a) < 0) then partition_down data a i (j - 1) cmp else j)"
  by pat_completeness auto
termination
  by (relation "measure (\<lambda>(data, a, i, j, cmp). nat (j + 1 - i))") auto

declare partition_down.simps [simp del]

lemma partition_up_ge: "i \<le> partition_up data a i j cmp"
  by (induction data a i j cmp rule: partition_up.induct)
    (subst partition_up.simps, auto)

lemma partition_down_le: "partition_down data a i j cmp \<le> j"
  by (induction data a i j cmp rule: partition_down.induct)
    (subst partition_down.simps, auto)

function partition_loop :: "'a list \<Rightarrow> int \<Rightarrow> int \<Rightarrow> int \<Rightarrow> ('a \<Rightarrow> 'a \<Rightarrow> int) \<Rightarrow> 'a list \<times> int" where
  "partition_loop data a i j cmp =
     (let i = partition_up data a i j cmp;
          j = partition_down data a i j cmp
      in if i > j then (data, j)
         else partition_loop (swap data i j) a (i + 1) (j - 1) cmp)"
  by pat_completeness auto
termination
proof (relation "measure (\<lambda>(data, a, i, j, cmp). nat (j + 1 - i))", goal_cases)
  case 1
  then show ?case by simp
next
  case (2 data a i j cmp i' j')
  then show ?case
    using partition_up_ge [of i data a j cmp] partition_down_le [of data a i' j cmp]
    by auto
qed

declare partition_loop.simps [simp del]

definition partitionCmpFunc ::
  "'a list \<Rightarrow> int \<Rightarrow> int \<Rightarrow> int \<Rightarrow> ('a \<Rightarrow> 'a \<Rightarrow> int) \<Rightarrow> 'a list \<times> int \<times> bool" where
  "partitionCmpFunc data a b pivot cmp =
     (let data = swap data a pivot;
          i = a + 1; j = b - 1;
          i = partition_up data a i j cmp;
          j = partition_down data a i j cmp
      in if i > j then (swap data j a, j, True)
         else
           let data = swap data i j;
               i = i + 1; j = j - 1;
               (data, j) = partition_loop data a i j cmp
           in (swap data j a, j, False))"

text \<open>\<open>partitionEqualCmpFunc\<close>, with the same three loops.\<close>

function partitionEqual_up :: "'a list \<Rightarrow> int \<Rightarrow> int \<Rightarrow> int \<Rightarrow> ('a \<Rightarrow> 'a \<Rightarrow> int) \<Rightarrow> int" where
  "partitionEqual_up data a i j cmp =
     (if i \<le> j \<and> \<not> (cmp (at data a) (at data i) < 0) then partitionEqual_up data a (i + 1) j cmp else i)"
  by pat_completeness auto
termination
  by (relation "measure (\<lambda>(data, a, i, j, cmp). nat (j + 1 - i))") auto

declare partitionEqual_up.simps [simp del]

function partitionEqual_down :: "'a list \<Rightarrow> int \<Rightarrow> int \<Rightarrow> int \<Rightarrow> ('a \<Rightarrow> 'a \<Rightarrow> int) \<Rightarrow> int" where
  "partitionEqual_down data a i j cmp =
     (if i \<le> j \<and> cmp (at data a) (at data j) < 0 then partitionEqual_down data a i (j - 1) cmp else j)"
  by pat_completeness auto
termination
  by (relation "measure (\<lambda>(data, a, i, j, cmp). nat (j + 1 - i))") auto

declare partitionEqual_down.simps [simp del]

lemma partitionEqual_up_ge: "i \<le> partitionEqual_up data a i j cmp"
  by (induction data a i j cmp rule: partitionEqual_up.induct)
    (subst partitionEqual_up.simps, auto)

lemma partitionEqual_down_le: "partitionEqual_down data a i j cmp \<le> j"
  by (induction data a i j cmp rule: partitionEqual_down.induct)
    (subst partitionEqual_down.simps, auto)

function partitionEqual_loop :: "'a list \<Rightarrow> int \<Rightarrow> int \<Rightarrow> int \<Rightarrow> ('a \<Rightarrow> 'a \<Rightarrow> int) \<Rightarrow> 'a list \<times> int" where
  "partitionEqual_loop data a i j cmp =
     (let i = partitionEqual_up data a i j cmp;
          j = partitionEqual_down data a i j cmp
      in if i > j then (data, i)
         else partitionEqual_loop (swap data i j) a (i + 1) (j - 1) cmp)"
  by pat_completeness auto
termination
proof (relation "measure (\<lambda>(data, a, i, j, cmp). nat (j + 1 - i))", goal_cases)
  case 1
  then show ?case by simp
next
  case (2 data a i j cmp i' j')
  then show ?case
    using partitionEqual_up_ge [of i data a j cmp] partitionEqual_down_le [of data a i' j cmp]
    by auto
qed

declare partitionEqual_loop.simps [simp del]

definition partitionEqualCmpFunc :: "'a list \<Rightarrow> int \<Rightarrow> int \<Rightarrow> int \<Rightarrow> ('a \<Rightarrow> 'a \<Rightarrow> int) \<Rightarrow> 'a list \<times> int" where
  "partitionEqualCmpFunc data a b pivot cmp =
     partitionEqual_loop (swap data a pivot) a (a + 1) (b - 1) cmp"

text \<open>
  \<open>partialInsertionSortCmpFunc\<close>: the scan for the next descent, the loop that shifts the
  smaller element to the left (\<open>for j := i - 1; j >= 1; j--\<close>), the loop that shifts the
  greater one to the right, and the loop of at most five steps around them. The result is
  the slice and whether it is sorted.
\<close>

function partialInsertionSort_scan :: "'a list \<Rightarrow> int \<Rightarrow> int \<Rightarrow> ('a \<Rightarrow> 'a \<Rightarrow> int) \<Rightarrow> int" where
  "partialInsertionSort_scan data i b cmp =
     (if i < b \<and> \<not> (cmp (at data i) (at data (i - 1)) < 0)
      then partialInsertionSort_scan data (i + 1) b cmp else i)"
  by pat_completeness auto
termination
  by (relation "measure (\<lambda>(data, i, b, cmp). nat (b - i))") auto

declare partialInsertionSort_scan.simps [simp del]

function partialInsertionSort_left :: "'a list \<Rightarrow> int \<Rightarrow> ('a \<Rightarrow> 'a \<Rightarrow> int) \<Rightarrow> 'a list" where
  "partialInsertionSort_left data j cmp =
     (if j \<ge> 1 then
        if \<not> (cmp (at data j) (at data (j - 1)) < 0) then data
        else partialInsertionSort_left (swap data j (j - 1)) (j - 1) cmp
      else data)"
  by pat_completeness auto
termination
  by (relation "measure (\<lambda>(data, j, cmp). nat j)") auto

declare partialInsertionSort_left.simps [simp del]

function partialInsertionSort_right :: "'a list \<Rightarrow> int \<Rightarrow> int \<Rightarrow> ('a \<Rightarrow> 'a \<Rightarrow> int) \<Rightarrow> 'a list" where
  "partialInsertionSort_right data j b cmp =
     (if j < b then
        if \<not> (cmp (at data j) (at data (j - 1)) < 0) then data
        else partialInsertionSort_right (swap data j (j - 1)) (j + 1) b cmp
      else data)"
  by pat_completeness auto
termination
  by (relation "measure (\<lambda>(data, j, b, cmp). nat (b - j))") auto

declare partialInsertionSort_right.simps [simp del]

function partialInsertionSort_steps ::
  "'a list \<Rightarrow> int \<Rightarrow> int \<Rightarrow> int \<Rightarrow> int \<Rightarrow> ('a \<Rightarrow> 'a \<Rightarrow> int) \<Rightarrow> 'a list \<times> bool" where
  "partialInsertionSort_steps data a b i j cmp =
     (if j < 5 then
        let i = partialInsertionSort_scan data i b cmp in
        if i = b then (data, True)
        else if b - a < 50 then (data, False)
        else
          let data = swap data i (i - 1);
              data = (if i - a \<ge> 2 then partialInsertionSort_left data (i - 1) cmp else data);
              data = (if b - i \<ge> 2 then partialInsertionSort_right data (i + 1) b cmp else data)
          in partialInsertionSort_steps data a b i (j + 1) cmp
      else (data, False))"
  by pat_completeness auto
termination
  by (relation "measure (\<lambda>(data, a, b, i, j, cmp). nat (5 - j))") auto

declare partialInsertionSort_steps.simps [simp del]

definition partialInsertionSortCmpFunc :: "'a list \<Rightarrow> int \<Rightarrow> int \<Rightarrow> ('a \<Rightarrow> 'a \<Rightarrow> int) \<Rightarrow> 'a list \<times> bool" where
  "partialInsertionSortCmpFunc data a b cmp = partialInsertionSort_steps data a b (a + 1) 0 cmp"

text \<open>
  The new pivot position of \<open>partitionCmpFunc\<close> lies in the range and that of
  \<open>partitionEqualCmpFunc\<close> after its start: the recursion of \<open>pdqsortCmpFunc\<close> is on
  shorter ranges.
\<close>

lemma partition_up_le: "partition_up data a i j cmp \<le> max i (j + 1)"
  by (induction data a i j cmp rule: partition_up.induct)
    (subst partition_up.simps, auto)

lemma partition_down_ge: "min j (i - 1) \<le> partition_down data a i j cmp"
  by (induction data a i j cmp rule: partition_down.induct)
    (subst partition_down.simps, auto)

lemma partition_loop_bounds:
  "i \<le> j + 2 \<Longrightarrow> i - 2 \<le> snd (partition_loop data a i j cmp)"
proof (induction data a i j cmp rule: partition_loop.induct)
  case (1 data a i j cmp)
  define i' where "i' = partition_up data a i j cmp"
  define j' where "j' = partition_down data a i' j cmp"
  have i': "i \<le> i'" "i' \<le> max i (j + 1)"
    using partition_up_ge [of i data a j cmp] partition_up_le [of data a i j cmp]
    by (simp_all add: i'_def)
  have j': "min j (i' - 1) \<le> j'" "j' \<le> j"
    using partition_down_ge [of j i' data a cmp] partition_down_le [of data a i' j cmp]
    by (simp_all add: j'_def)
  show ?case
  proof (cases "i' > j'")
    case True
    then show ?thesis
      using i' j' 1(2)
      by (subst partition_loop.simps) (simp add: Let_def i'_def [symmetric] j'_def [symmetric])
  next
    case False
    then have "i' + 1 \<le> j' - 1 + 2" by simp
    from 1(1) [OF i'_def j'_def False this] show ?thesis
      using False i' j'
      by (subst partition_loop.simps) (simp add: Let_def i'_def [symmetric] j'_def [symmetric])
  qed
qed

lemma partition_loop_le:
  "snd (partition_loop data a i j cmp) \<le> j"
proof (induction data a i j cmp rule: partition_loop.induct)
  case (1 data a i j cmp)
  define i' where "i' = partition_up data a i j cmp"
  define j' where "j' = partition_down data a i' j cmp"
  have j': "j' \<le> j"
    using partition_down_le [of data a i' j cmp]
    by (simp_all add: j'_def)
  show ?case
  proof (cases "i' > j'")
    case True
    then show ?thesis
      using j'
      by (subst partition_loop.simps) (simp add: Let_def i'_def [symmetric] j'_def [symmetric])
  next
    case False
    from 1(1) [OF i'_def j'_def False] show ?thesis
      using False j'
      by (subst partition_loop.simps) (simp add: Let_def i'_def [symmetric] j'_def [symmetric])
  qed
qed

lemma partitionCmpFunc_bounds:
  assumes "a < b"
  shows "a \<le> fst (snd (partitionCmpFunc data a b pivot cmp))
    \<and> fst (snd (partitionCmpFunc data a b pivot cmp)) < b"
proof -
  define d where "d = swap data a pivot"
  define i where "i = partition_up d a (a + 1) (b - 1) cmp"
  define j where "j = partition_down d a i (b - 1) cmp"
  have i: "a + 1 \<le> i" "i \<le> b"
    using partition_up_ge [of "a + 1" d a "b - 1" cmp] partition_up_le [of d a "a + 1" "b - 1" cmp] assms
    by (simp_all add: i_def)
  have j: "i - 1 \<le> j" "j \<le> b - 1"
    using partition_down_ge [of "b - 1" i d a cmp] partition_down_le [of d a i "b - 1" cmp] i
    by (simp_all add: j_def)
  show ?thesis
  proof (cases "i > j")
    case True
    then show ?thesis using i j
      by (simp add: partitionCmpFunc_def Let_def d_def [symmetric] i_def [symmetric] j_def [symmetric])
  next
    case False
    then have "i + 1 \<le> j - 1 + 2" by simp
    from partition_loop_bounds [OF this, of "swap d i j" a cmp]
      partition_loop_le [of "swap d i j" a "i + 1" "j - 1" cmp]
    show ?thesis
      using False i j
      by (auto simp: partitionCmpFunc_def Let_def d_def [symmetric] i_def [symmetric] j_def [symmetric]
          split: prod.splits)
  qed
qed

lemma partitionEqual_loop_gt:
  "i \<le> snd (partitionEqual_loop data a i j cmp)"
proof (induction data a i j cmp rule: partitionEqual_loop.induct)
  case (1 data a i j cmp)
  define i' where "i' = partitionEqual_up data a i j cmp"
  define j' where "j' = partitionEqual_down data a i' j cmp"
  have i': "i \<le> i'"
    using partitionEqual_up_ge [of i data a j cmp] by (simp add: i'_def)
  show ?case
  proof (cases "i' > j'")
    case True
    then show ?thesis
      using i' by (subst partitionEqual_loop.simps) (simp add: Let_def i'_def [symmetric] j'_def [symmetric])
  next
    case False
    from 1(1) [OF i'_def j'_def False] show ?thesis
      using False i'
      by (subst partitionEqual_loop.simps) (simp add: Let_def i'_def [symmetric] j'_def [symmetric])
  qed
qed

lemma partitionEqualCmpFunc_gt: "a < snd (partitionEqualCmpFunc data a b pivot cmp)"
  using partitionEqual_loop_gt [of "a + 1" "swap data a pivot" a "b - 1" cmp]
  by (simp add: partitionEqualCmpFunc_def)

text \<open>
  \<open>pdqsortCmpFunc\<close>. The \<open>for\<close> loop of the Go function is the recursion on the
  variables it changes: \<open>a\<close>, \<open>b\<close>, \<open>limit\<close>, \<open>wasBalanced\<close> and \<open>wasPartitioned\<close>. A call
  of the Go function starts with both flags \<open>true\<close>.
\<close>

function pdqsortCmpFunc ::
  "'a list \<Rightarrow> int \<Rightarrow> int \<Rightarrow> int \<Rightarrow> bool \<Rightarrow> bool \<Rightarrow> ('a \<Rightarrow> 'a \<Rightarrow> int) \<Rightarrow> 'a list" where
  "pdqsortCmpFunc data a b limit wasBalanced wasPartitioned cmp =
     (let len = b - a in
      if len \<le> 12 then insertionSortCmpFunc data a b cmp
      else if limit = 0 then heapSortCmpFunc data a b cmp
      else
        let (data, limit) =
              (if \<not> wasBalanced then (breakPatternsCmpFunc data a b cmp, limit - 1)
               else (data, limit));
            (pivot, hint) = choosePivotCmpFunc data a b cmp;
            (data, pivot, hint) =
              (if hint = decreasingHint
               then (reverseRangeCmpFunc data a b cmp, (b - 1) - (pivot - a), increasingHint)
               else (data, pivot, hint));
            (data, sorted) =
              (if wasBalanced \<and> wasPartitioned \<and> hint = increasingHint
               then partialInsertionSortCmpFunc data a b cmp
               else (data, False))
        in if sorted then data
           else if a > 0 \<and> \<not> (cmp (at data (a - 1)) (at data pivot) < 0) then
             let (data, mid) = partitionEqualCmpFunc data a b pivot cmp
             in pdqsortCmpFunc data mid b limit wasBalanced wasPartitioned cmp
           else
             let (data, mid, alreadyPartitioned) = partitionCmpFunc data a b pivot cmp;
                 wasPartitioned = alreadyPartitioned;
                 leftLen = mid - a; rightLen = b - mid;
                 balanceThreshold = len sdiv 8
             in if leftLen < rightLen then
                  let wasBalanced = (leftLen \<ge> balanceThreshold);
                      data = pdqsortCmpFunc data a mid limit True True cmp
                  in pdqsortCmpFunc data (mid + 1) b limit wasBalanced wasPartitioned cmp
                else
                  let wasBalanced = (rightLen \<ge> balanceThreshold);
                      data = pdqsortCmpFunc data (mid + 1) b limit True True cmp
                  in pdqsortCmpFunc data a mid limit wasBalanced wasPartitioned cmp)"
  by pat_completeness auto
termination
proof (relation "measure (\<lambda>(data, a, b, limit, wasBalanced, wasPartitioned, cmp). nat (b - a))", goal_cases)
  case 1
  then show ?case by simp
next
  case (2 data a b limit wasBalanced wasPartitioned cmp len x1 data1 limit1 x2 pivot hint x3 data2 x4 pivot2 hint2 x5 data3 sorted x6 data4 mid)
  then have "mid = snd (partitionEqualCmpFunc data3 a b pivot2 cmp)"
    by (metis snd_conv)
  then show ?case
    using partitionEqualCmpFunc_gt [of a data3 b pivot2 cmp] 2(1,2) by auto
next
  case (3 data a b limit wasBalanced wasPartitioned cmp len x1 data1 limit1 x2 pivot hint x3 data2 x4 pivot2 hint2 x5 data3 sorted x6 data4 x7 mid alreadyPartitioned)
  then have "mid = fst (snd (partitionCmpFunc data3 a b pivot2 cmp))"
    by (metis fst_conv snd_conv)
  then show ?case
    using partitionCmpFunc_bounds [of a b data3 pivot2 cmp] 3(1,2) by auto
next
  case (4 data a b limit wasBalanced wasPartitioned cmp len x1 data1 limit1 x2 pivot hint x3 data2 x4 pivot2 hint2 x5 data3 sorted x6 data4 x7 mid alreadyPartitioned)
  then have "mid = fst (snd (partitionCmpFunc data3 a b pivot2 cmp))"
    by (metis fst_conv snd_conv)
  then show ?case
    using partitionCmpFunc_bounds [of a b data3 pivot2 cmp] 4(1,2) by auto
next
  case (5 data a b limit wasBalanced wasPartitioned cmp len x1 data1 limit1 x2 pivot hint x3 data2 x4 pivot2 hint2 x5 data3 sorted x6 data4 x7 mid alreadyPartitioned)
  then have "mid = fst (snd (partitionCmpFunc data3 a b pivot2 cmp))"
    by (metis fst_conv snd_conv)
  then show ?case
    using partitionCmpFunc_bounds [of a b data3 pivot2 cmp] 5(1,2) by auto
next
  case (6 data a b limit wasBalanced wasPartitioned cmp len x1 data1 limit1 x2 pivot hint x3 data2 x4 pivot2 hint2 x5 data3 sorted x6 data4 x7 mid alreadyPartitioned)
  then have "mid = fst (snd (partitionCmpFunc data3 a b pivot2 cmp))"
    by (metis fst_conv snd_conv)
  then show ?case
    using partitionCmpFunc_bounds [of a b data3 pivot2 cmp] 6(1,2) by auto
qed

declare pdqsortCmpFunc.simps [simp del]

text \<open>\<open>slices.SortFunc\<close> itself.\<close>

definition SortFunc :: "'a list \<Rightarrow> ('a \<Rightarrow> 'a \<Rightarrow> int) \<Rightarrow> 'a list" where
  "SortFunc x cmp =
     (let n = int (length x) in
      pdqsortCmpFunc x 0 n (int (bits_Len (word_of_int n))) True True cmp)"

section \<open>Ordering operators\<close>

text \<open>
  The method \<open>Order\<close> collects the source into \<open>result1\<close>, sorts it and yields it. The
  comparison is the supplied one (\<open>len(compare) > 0\<close>), else the \<open>Compare\<close> method when
  \<open>TSource\<close> implements \<open>generic.IComparable[TSource]\<close> (the parameter \<open>comparable\<close>), else
  \<open>cmp.Compare\<close> at the primitive kind found by the type switch (the parameter \<open>natural\<close>;
  \<open>None\<close> is the \<open>default\<close> case, which panics). The final loop over the sorted slice is
  the loop of \<open>FromSlice\<close>.
\<close>

definition Iterator_Order ::
  "('a \<Rightarrow> 'a \<Rightarrow> int) option \<Rightarrow> ('a \<Rightarrow> 'a \<Rightarrow> int) option \<Rightarrow> ('a, 'a list) Iterator
     \<Rightarrow> ('a \<Rightarrow> 'a \<Rightarrow> int) list \<Rightarrow> ('a, 's) Iterator" where
  "Iterator_Order comparable natural source compare yield s =
     (case source (\<lambda>item result1. Inr (True, result1 @ [item])) [] of
        Inl p \<Rightarrow> Inl p
      | Inr result1 \<Rightarrow>
          if length compare > 0 then FromSlice (SortFunc result1 (compare ! 0)) yield s
          else
            (case comparable of
               Some Compare \<Rightarrow>
                 FromSlice (SortFunc result1 (\<lambda>first second. Compare first second)) yield s
             | None \<Rightarrow>
                 (case natural of
                    Some cmpCompare \<Rightarrow>
                      FromSlice (SortFunc result1 (\<lambda>x y. cmpCompare x y)) yield s
                  | None \<Rightarrow> Inl UnsupportedType)))"

text \<open>
  \<open>OrderBy\<close> sorts the pairs \<open>generic.ValuePair{Item1: item, Item2: valueSelector(item)}\<close>
  (here HOL pairs, \<open>fst\<close> for \<open>Item1\<close> and \<open>snd\<close> for \<open>Item2\<close>) by \<open>Item2\<close> and yields each
  \<open>Item1\<close>. \<open>cmpCompare\<close> is \<open>cmp.Compare\<close> at the key type \<open>TValue\<close>.
\<close>

definition OrderBy ::
  "('v \<Rightarrow> 'v \<Rightarrow> int) \<Rightarrow> ('a, ('a \<times> 'v) list) Iterator \<Rightarrow> ('a \<Rightarrow> 'v) \<Rightarrow> ('v \<Rightarrow> 'v \<Rightarrow> int) list
     \<Rightarrow> ('a, 's) Iterator" where
  "OrderBy cmpCompare source valueSelector compare yield s =
     (case source (\<lambda>item result. Inr (True, result @ [(item, valueSelector item)])) [] of
        Inl p \<Rightarrow> Inl p
      | Inr result \<Rightarrow>
          let result =
                (if length compare > 0
                 then SortFunc result (\<lambda>x y. (compare ! 0) (snd x) (snd y))
                 else SortFunc result (\<lambda>x y. cmpCompare (snd x) (snd y)))
          in FromSlice (map fst result) yield s)"

text \<open>
  The comparison an ordering operator resolves to, in the order in which \<open>Order\<close> and
  \<open>OrderBy\<close> branch; used to state the properties. \<open>Order\<close> resolves to none in the
  \<open>default\<close> case of its type switch.
\<close>

definition resolved_comparison ::
  "('a \<Rightarrow> 'a \<Rightarrow> int) option \<Rightarrow> ('a \<Rightarrow> 'a \<Rightarrow> int) option \<Rightarrow> ('a \<Rightarrow> 'a \<Rightarrow> int) list
     \<Rightarrow> ('a \<Rightarrow> 'a \<Rightarrow> int) option" where
  "resolved_comparison comparable natural compare =
     (case compare of
        Compare # _ \<Rightarrow> Some Compare
      | [] \<Rightarrow> (case comparable of Some Compare \<Rightarrow> Some Compare | None \<Rightarrow> natural))"

definition resolved_key_comparison ::
  "('v \<Rightarrow> 'v \<Rightarrow> int) \<Rightarrow> ('v \<Rightarrow> 'v \<Rightarrow> int) list \<Rightarrow> 'v \<Rightarrow> 'v \<Rightarrow> int" where
  "resolved_key_comparison cmpCompare compare =
     (case compare of Compare # _ \<Rightarrow> Compare | [] \<Rightarrow> cmpCompare)"

text \<open>
  The input of the stability example: thirteen pairs of an identity tag and a key, the
  key 1 twelve times and then the key 0.
\<close>

definition tagged_keys :: "(go_int \<times> go_int) list" where
  "tagged_keys =
     [(0, 1), (1, 1), (2, 1), (3, 1), (4, 1), (5, 1), (6, 1), (7, 1), (8, 1), (9, 1),
      (10, 1), (11, 1), (12, 0)]"

section \<open>Predicates of the sorting proofs\<close>

text \<open>
  \<open>slices.SortFunc\<close> requires a strict weak ordering: \<open>cmp a b < 0\<close> is irreflexive and
  transitive, and so is its negation.
\<close>

definition strict_weak_order :: "('a \<Rightarrow> 'a \<Rightarrow> int) \<Rightarrow> bool" where
  "strict_weak_order cmp \<longleftrightarrow>
     (\<forall>x. \<not> cmp x x < 0)
     \<and> (\<forall>x y z. cmp x y < 0 \<and> cmp y z < 0 \<longrightarrow> cmp x z < 0)
     \<and> (\<forall>x y z. \<not> cmp x y < 0 \<and> \<not> cmp y z < 0 \<longrightarrow> \<not> cmp x z < 0)"

text \<open>\<open>data[a:b]\<close> is non-decreasing: no later element is less than an earlier one.\<close>

definition sorted_between :: "('a \<Rightarrow> 'a \<Rightarrow> int) \<Rightarrow> 'a list \<Rightarrow> int \<Rightarrow> int \<Rightarrow> bool" where
  "sorted_between cmp data a b \<longleftrightarrow>
     (\<forall>i j. a \<le> i \<and> i < j \<and> j < b \<longrightarrow> \<not> cmp (at data j) (at data i) < 0)"

text \<open>\<open>data'\<close> comes from \<open>data\<close> by exchanges of elements inside \<open>data[a:b]\<close>.\<close>

inductive swaps :: "int \<Rightarrow> int \<Rightarrow> 'a list \<Rightarrow> 'a list \<Rightarrow> bool" for a b :: int and data :: "'a list" where
  swaps_refl: "swaps a b data data"
| swaps_step: "swaps a b data data' \<Longrightarrow> a \<le> i \<Longrightarrow> i < b \<Longrightarrow> a \<le> j \<Longrightarrow> j < b
     \<Longrightarrow> 0 \<le> a \<Longrightarrow> b \<le> int (length data') \<Longrightarrow> swaps a b data (swap data' i j)"

text \<open>
  The invariants of the loops: \<open>data[a:e]\<close> is sorted but for the element at \<open>j\<close> against
  the ones before it; the elements left of \<open>i\<close> are less than the pivot \<open>data[a]\<close> and those
  right of \<open>j\<close> are not (or, for \<open>partitionEqualCmpFunc\<close>, not greater and greater);
  \<open>data[a-1]\<close> is less than no element of \<open>data[a:b]\<close>; the heap order holds for the nodes
  from \<open>lo\<close> on, or for all of them but \<open>root\<close>; and, between two steps of the second loop
  of \<open>heapSortCmpFunc\<close>, the nodes up to \<open>i\<close> are a heap and the rest is sorted and not less.
\<close>

definition sorted_except :: "('a \<Rightarrow> 'a \<Rightarrow> int) \<Rightarrow> 'a list \<Rightarrow> int \<Rightarrow> int \<Rightarrow> int \<Rightarrow> bool" where
  "sorted_except cmp data a e j \<longleftrightarrow>
     (\<forall>k l. a \<le> k \<and> k < l \<and> l < e \<and> l \<noteq> j \<longrightarrow> \<not> cmp (at data l) (at data k) < 0)"

definition partitioned :: "('a \<Rightarrow> 'a \<Rightarrow> int) \<Rightarrow> 'a list \<Rightarrow> int \<Rightarrow> int \<Rightarrow> int \<Rightarrow> int \<Rightarrow> bool" where
  "partitioned cmp data a b i j \<longleftrightarrow>
     (\<forall>k. a < k \<and> k < i \<longrightarrow> cmp (at data k) (at data a) < 0)
     \<and> (\<forall>k. j < k \<and> k < b \<longrightarrow> \<not> cmp (at data k) (at data a) < 0)"

definition partitionedEqual :: "('a \<Rightarrow> 'a \<Rightarrow> int) \<Rightarrow> 'a list \<Rightarrow> int \<Rightarrow> int \<Rightarrow> int \<Rightarrow> int \<Rightarrow> bool" where
  "partitionedEqual cmp data a b i j \<longleftrightarrow>
     (\<forall>k. a < k \<and> k < i \<longrightarrow> \<not> cmp (at data a) (at data k) < 0)
     \<and> (\<forall>k. j < k \<and> k < b \<longrightarrow> cmp (at data a) (at data k) < 0)"

definition lower_bounded :: "('a \<Rightarrow> 'a \<Rightarrow> int) \<Rightarrow> 'a list \<Rightarrow> int \<Rightarrow> int \<Rightarrow> bool" where
  "lower_bounded cmp data a b \<longleftrightarrow>
     (a > 0 \<longrightarrow> (\<forall>k. a \<le> k \<and> k < b \<longrightarrow> \<not> cmp (at data k) (at data (a - 1)) < 0))"

definition heap_except :: "('a \<Rightarrow> 'a \<Rightarrow> int) \<Rightarrow> 'a list \<Rightarrow> int \<Rightarrow> int \<Rightarrow> int \<Rightarrow> int \<Rightarrow> bool" where
  "heap_except cmp data first lo hi root \<longleftrightarrow>
     (\<forall>p c. lo \<le> p \<and> p \<noteq> root \<and> (c = 2 * p + 1 \<or> c = 2 * p + 2) \<and> c < hi
        \<longrightarrow> \<not> cmp (at data (first + p)) (at data (first + c)) < 0)
     \<and> (\<forall>q c. lo \<le> q \<and> (root = 2 * q + 1 \<or> root = 2 * q + 2)
          \<and> (c = 2 * root + 1 \<or> c = 2 * root + 2) \<and> c < hi
        \<longrightarrow> \<not> cmp (at data (first + q)) (at data (first + c)) < 0)"

definition heap_from :: "('a \<Rightarrow> 'a \<Rightarrow> int) \<Rightarrow> 'a list \<Rightarrow> int \<Rightarrow> int \<Rightarrow> int \<Rightarrow> bool" where
  "heap_from cmp data first lo hi \<longleftrightarrow>
     (\<forall>p c. lo \<le> p \<and> (c = 2 * p + 1 \<or> c = 2 * p + 2) \<and> c < hi
        \<longrightarrow> \<not> cmp (at data (first + p)) (at data (first + c)) < 0)"

definition pop_inv :: "('a \<Rightarrow> 'a \<Rightarrow> int) \<Rightarrow> 'a list \<Rightarrow> int \<Rightarrow> int \<Rightarrow> int \<Rightarrow> bool" where
  "pop_inv cmp data first hi i \<longleftrightarrow>
     heap_from cmp data first 0 (i + 1)
     \<and> sorted_between cmp data (first + i + 1) (first + hi)
     \<and> (\<forall>n m. 0 \<le> n \<and> n \<le> i \<and> i < m \<and> m < hi
          \<longrightarrow> \<not> cmp (at data (first + m)) (at data (first + n)) < 0)"

section \<open>Traversing a slice\<close>

text \<open>A loop body that never panics and never stops sees every element, in order.\<close>

lemma FromSlice_fold:
  "FromSlice xs (\<lambda>item s. Inr (True, f item s)) s = Inr (fold f xs s)"
  by (induction xs arbitrary: s) simp_all

lemma ToSlice_FromSlice_aux:
  "FromSlice xs (\<lambda>item result. Inr (True, result @ [item])) ys = Inr (ys @ xs)"
  by (induction xs arbitrary: ys) simp_all

lemma ToSlice_FromSlice: "ToSlice (FromSlice xs) = Inr xs"
  by (simp add: ToSlice_def ToSlice_FromSlice_aux)

declare Reverse_loop.simps [simp del]

section \<open>Aggregate and Sum\<close>





text \<open>
  C10. \<open>Sum\<close> has no error result and does not panic on a slice: it is the left-to-right
  fold of \<open>+\<close> from the zero value, so the sum of an empty sequence is the zero value,
  for integers as for strings. \<open>Average\<close> on an empty source returns the empty-source
  error.
\<close>

theorem Sum_is_left_fold:
  "Sum zeroValue add (FromSlice xs) = Inr (foldl add zeroValue xs)
   \<and> Sum zeroValue add (FromSlice []) = Inr zeroValue
   \<and> Sum 0 (+) (FromSlice [1, 2, 3 :: go_int]) = Inr 6
   \<and> Sum [] (@) (FromSlice [''ab'', ''c'']) = Inr ''abc''
   \<and> Average zeroValue add toAverage fzero (FromSlice []) =
       Inr (fzero, Some ErrSourceContainsNoElements)"
  by (simp add: Sum_def Average_def FromSlice_fold foldl_conv_fold)

section \<open>Single, First and Last\<close>

text \<open>
  C6. Without a predicate (none given, or a \<open>nil\<close> one), \<open>Single\<close> returns the
  empty-source error exactly for a source of no elements, the
  source-has-more-than-one-element error exactly for a source of two or more, and
  otherwise the only element and no error. On \<open>[]\<close>, \<open>[1, 2]\<close> and \<open>[4]\<close> it returns
  the empty-source error, the more-than-one error and 4.
\<close>

theorem Single_without_predicate:
  "Single z (FromSlice xs) [] =
     Inr (if length xs = 0 then (z, Some ErrSourceContainsNoElements)
          else if length xs \<ge> 2 then (z, Some ErrSourceHasMoreThanOneElement)
          else (hd xs, None))
   \<and> Single z (FromSlice xs) (None # ps) = Single z (FromSlice xs) []
   \<and> Single 0 (FromSlice ([] :: go_int list)) [] = Inr (0, Some ErrSourceContainsNoElements)
   \<and> Single 0 (FromSlice [1, 2 :: go_int]) [] = Inr (0, Some ErrSourceHasMoreThanOneElement)
   \<and> Single 0 (FromSlice [4 :: go_int]) [] = Inr (4, None)"
  by (cases xs; cases "tl xs") (auto simp: Single_def)

lemma First_loop:
  "FromSlice xs (\<lambda>item (any, ret).
                   if p item then Inr (False, (True, Some (item, None)))
                   else Inr (True, (True, ret))) (a, None)
   = Inr (if filter p xs = [] then (a \<or> xs \<noteq> [], None)
          else (True, Some (hd (filter p xs), None)))"
  by (induction xs arbitrary: a) auto

lemma Last_loop:
  "FromSlice xs (\<lambda>item (any, found, result).
                   if p item then Inr (True, (True, True, item))
                   else Inr (True, (True, found, result))) (a, f, r)
   = Inr (a \<or> xs \<noteq> [], f \<or> filter p xs \<noteq> [],
          if filter p xs = [] then r else last (filter p xs))"
  by (induction xs arbitrary: a f r) auto

text \<open>
  C7. With a predicate \<open>p\<close>, strict \<open>First\<close> returns the empty-source error exactly for
  an empty source, the no-element-satisfies-the-condition error exactly for a non-empty
  source none of whose elements satisfies \<open>p\<close>, and otherwise the first element that
  satisfies \<open>p\<close> and no error; strict \<open>Last\<close> does the same with the last such element.
\<close>

theorem First_Last_strict_predicate:
  "First z (FromSlice xs) (Some p # ps) =
     Inr (if xs = [] then (z, Some ErrSourceContainsNoElements)
          else if filter p xs = [] then (z, Some ErrNoElementSatisfiesTheConditionInPredicate)
          else (hd (filter p xs), None))
   \<and> Last z (FromSlice xs) (Some p # ps) =
     Inr (if xs = [] then (z, Some ErrSourceContainsNoElements)
          else if filter p xs = [] then (z, Some ErrNoElementSatisfiesTheConditionInPredicate)
          else (last (filter p xs), None))"
  by (auto simp: First_def First_loop Last_def Last_loop)

theorem First_Last_strict_predicate_witness:
  "First 0 (FromSlice [1, 2, 3, 4 :: go_int]) [Some (\<lambda>x. 1 <s x)] = Inr (2, None)
   \<and> Last 0 (FromSlice [1, 2, 3, 4 :: go_int]) [Some (\<lambda>x. 1 <s x)] = Inr (4, None)
   \<and> First 0 (FromSlice [1, 2 :: go_int]) [Some (\<lambda>x. 2 <s x)] =
       Inr (0, Some ErrNoElementSatisfiesTheConditionInPredicate)
   \<and> Last 0 (FromSlice ([] :: go_int list)) [Some (\<lambda>x. 2 <s x)] =
       Inr (0, Some ErrSourceContainsNoElements)"
  using First_Last_strict_predicate [of 0 "[1, 2, 3, 4 :: go_int]" "\<lambda>x. 1 <s x" "[]"]
    First_Last_strict_predicate [of 0 "[1, 2 :: go_int]" "\<lambda>x. 2 <s x" "[]"]
    First_Last_strict_predicate [of 0 "[] :: go_int list" "\<lambda>x. 2 <s x" "[]"]
  by (simp add: word_sless_alt)

section \<open>Reverse\<close>

lemma Reverse_FromSlice: "Reverse (FromSlice xs) yield s = Inl IndexOutOfRange"
  by (simp add: Reverse_def ToSlice_FromSlice_aux Reverse_loop.simps [of xs "int (length xs)"])

text \<open>
  C4 fails on the code: the loop of \<open>Reverse\<close> starts at \<open>i = len(reverse)\<close>, one past the
  last index, so its first read \<open>reverse[i]\<close> is out of range and every traversal of
  \<open>Reverse\<close> panics before it yields anything, whatever the source holds. Neither
  \<open>Reverse().ToSlice()\<close> nor \<open>Reverse().Reverse().ToSlice()\<close> returns a slice.
\<close>

theorem Reverse_always_panics:
  "Reverse (FromSlice xs) yield s = Inl IndexOutOfRange
   \<and> ToSlice (Reverse (FromSlice xs)) = Inl IndexOutOfRange
   \<and> ToSlice (Reverse (Reverse (FromSlice xs))) = Inl IndexOutOfRange
   \<and> ToSlice (Reverse (FromSlice [1, 2, 3 :: go_int])) \<noteq> Inr [3, 2, 1]"
  by (simp add: ToSlice_def Reverse_FromSlice Reverse_def [of "Reverse (FromSlice xs)"])

section \<open>TakeWhile and SkipWhile\<close>

lemma TakeWhile_loop:
  "FromSlice xs (TakeWhile_body p (\<lambda>item result. Inr (True, result @ [item]))) ys
     = Inr (ys @ takeWhile (\<lambda>x. \<not> p x) xs)"
  by (induction xs arbitrary: ys) (auto simp: TakeWhile_body_def)

lemma TakeWhile_recording_loop:
  "FromSlice xs (\<lambda>item (record, s).
       TakeWhile_body p (downstream (\<lambda>item result. Inr (True, result @ [item]))) item
         (record @ [item], s)) (rs, ys)
     = Inr (rs @ takeWhile (\<lambda>x. \<not> p x) xs @ take 1 (dropWhile (\<lambda>x. \<not> p x) xs),
            ys @ takeWhile (\<lambda>x. \<not> p x) xs)"
  by (induction xs arbitrary: rs ys) (auto simp: TakeWhile_body_def downstream_def)

lemma SkipWhile_loop_forwarding:
  "FromSlice xs (\<lambda>item (skip, s).
              if skip \<and> \<not> p item then Inr (True, (skip, s))
              else (case Inr (True, s @ [item]) of
                      Inl p \<Rightarrow> Inl p
                    | Inr (continue, s') \<Rightarrow> Inr (continue, (False, s')))) (False, ys)
   = Inr (False, ys @ xs)"
  by (induction xs arbitrary: ys) auto

lemma SkipWhile_loop:
  "FromSlice xs (\<lambda>item (skip, s).
              if skip \<and> \<not> p item then Inr (True, (skip, s))
              else (case Inr (True, s @ [item]) of
                      Inl p \<Rightarrow> Inl p
                    | Inr (continue, s') \<Rightarrow> Inr (continue, (False, s')))) (True, ys)
   = Inr (dropWhile (\<lambda>x. \<not> p x) xs = [], ys @ dropWhile (\<lambda>x. \<not> p x) xs)"
  by (induction xs arbitrary: ys) (auto simp: SkipWhile_loop_forwarding)

text \<open>
  C5 holds of \<open>TakeWhile\<close> and fails of \<open>SkipWhile\<close> on the code. \<open>TakeWhile(p)\<close>
  forwards the elements in order up to, and not including, the first element for which
  \<open>p\<close> holds; of a source that records what it hands over, it pulls these elements and
  that first one, and no more. \<open>SkipWhile(p)\<close> does not skip while \<open>p\<close> holds, as C5 and
  its own doc comment say, but while \<open>p\<close> does not hold: it forwards the first element for
  which \<open>p\<close> holds and every element after it, whatever \<open>p\<close> says of them. On 1..7 with
  \<open>object%3 == 0\<close>, skipping while the predicate holds skips nothing, and the code
  yields \<open>[3, 4, 5, 6, 7]\<close>, which is also what the test "SkipWhile source, predicate 1"
  expects.
\<close>

theorem TakeWhile_stops_SkipWhile_inverted:
  "ToSlice (TakeWhile (FromSlice xs) p) = Inr (takeWhile (\<lambda>x. \<not> p x) xs)
   \<and> TakeWhile (recording (FromSlice xs)) p
         (downstream (\<lambda>item result. Inr (True, result @ [item]))) ([], [])
       = Inr (takeWhile (\<lambda>x. \<not> p x) xs @ take 1 (dropWhile (\<lambda>x. \<not> p x) xs),
              takeWhile (\<lambda>x. \<not> p x) xs)
   \<and> ToSlice (SkipWhile (FromSlice xs) p) = Inr (dropWhile (\<lambda>x. \<not> p x) xs)
   \<and> ToSlice (SkipWhile (FromSlice [1, 2, 3, 4, 5, 6, 7]) multiple_of_3) = Inr [3, 4, 5, 6, 7]
   \<and> dropWhile multiple_of_3 [1, 2, 3, 4, 5, 6, 7] = [1, 2, 3, 4, 5, 6, 7]"
proof -
  have "TakeWhile (recording (FromSlice xs)) p
         (downstream (\<lambda>item result. Inr (True, result @ [item]))) ([], [])
       = Inr (takeWhile (\<lambda>x. \<not> p x) xs @ take 1 (dropWhile (\<lambda>x. \<not> p x) xs),
              takeWhile (\<lambda>x. \<not> p x) xs)"
    using TakeWhile_recording_loop [of xs p "[]" "[]"]
    by (simp add: TakeWhile_def recording_def)
  moreover have "ToSlice (SkipWhile (FromSlice [1, 2, 3, 4, 5, 6, 7]) multiple_of_3)
      = Inr [3, 4, 5, 6, 7]
    \<and> dropWhile multiple_of_3 [1, 2, 3, 4, 5, 6, 7] = [1, 2, 3, 4, 5, 6, 7]"
    by (simp add: ToSlice_def SkipWhile_def multiple_of_3_def signed_modulo_int_def
        signed_divide_int_def)
  ultimately show ?thesis
    by (simp add: ToSlice_def TakeWhile_def TakeWhile_loop SkipWhile_def SkipWhile_loop)
qed

section \<open>SequenceEqual\<close>










section \<open>Except\<close>

text \<open>
  C1 fails on the code: the nested loops of \<open>Except\<close> yield \<open>item\<close> when it equals an
  element of the right operand, so the documented example yields \<open>[1, 2]\<close>, the
  intersection, and not \<open>[3]\<close>.
\<close>

theorem Except_example_yields_intersection:
  "ToSlice (Except None (FromSlice [1, 2, 3, 1, 2, 3 :: go_int]) (FromSlice [1, 2, 1, 1]) [])
     = Inr [1, 2]
   \<and> ToSlice (Except None (FromSlice [1, 2, 3, 1, 2, 3 :: go_int]) (FromSlice [1, 2, 1, 1]) [])
     \<noteq> Inr [3]"
  by (simp add: ToSlice_def Except_def Except_loops_def Distinct_def Contains_def)

section \<open>Min and Max with a comparer\<close>

text \<open>
  C3 fails on the code for non-empty sources: with a comparer, \<open>Min\<close> replaces its
  candidate when the candidate compares less than the element, and \<open>Max\<close> when it
  compares greater, so on \<open>[2, 1, 3]\<close> with \<open>cmp.Compare\<close> the method \<open>Min\<close> returns 3
  and \<open>Max\<close> returns 1. The type-switch branch of the same methods returns 1 and 3. On an
  empty source both return the empty-source error.
\<close>

theorem Min_Max_comparer_inverted:
  "Iterator_Min 0 None None (FromSlice [2, 1, 3 :: go_int]) [cmp_Compare] = Inr (3, None)
   \<and> cmp_Compare 1 3 < 0
   \<and> Iterator_Max 0 None None (FromSlice [2, 1, 3 :: go_int]) [cmp_Compare] = Inr (1, None)
   \<and> cmp_Compare 3 1 > 0
   \<and> Iterator_Min 0 None (Some (<s)) (FromSlice [2, 1, 3 :: go_int]) [] = Inr (1, None)
   \<and> Iterator_Max 0 None (Some (<s)) (FromSlice [2, 1, 3 :: go_int]) [] = Inr (3, None)
   \<and> Iterator_Min z None None (FromSlice []) [compare] = Inr (z, Some ErrSourceContainsNoElements)
   \<and> Iterator_Max z None None (FromSlice []) [compare] = Inr (z, Some ErrSourceContainsNoElements)"
  by (simp add: Iterator_Min_def Iterator_Max_def minmax_def cmp_Compare_def word_sless_alt)

section \<open>Correctness of \<open>slices.SortFunc\<close>\<close>

subsection \<open>Orderings and exchanges\<close>

text \<open>
  Every function of the sort changes the slice by exchanges inside its range only, so the
  result is a permutation and the elements outside the range stay.
\<close>

lemma swo_irrefl: "strict_weak_order cmp \<Longrightarrow> \<not> cmp x x < 0"
  by (simp add: strict_weak_order_def)

lemma swo_trans: "strict_weak_order cmp \<Longrightarrow> cmp x y < 0 \<Longrightarrow> cmp y z < 0 \<Longrightarrow> cmp x z < 0"
  unfolding strict_weak_order_def by blast

lemma swo_le_trans:
  "strict_weak_order cmp \<Longrightarrow> \<not> cmp x y < 0 \<Longrightarrow> \<not> cmp y z < 0 \<Longrightarrow> \<not> cmp x z < 0"
  unfolding strict_weak_order_def by blast

lemma swo_asym: "strict_weak_order cmp \<Longrightarrow> cmp x y < 0 \<Longrightarrow> \<not> cmp y x < 0"
  using swo_irrefl swo_trans by metis

lemma swo_lt_le_trans:
  "strict_weak_order cmp \<Longrightarrow> cmp x y < 0 \<Longrightarrow> \<not> cmp z y < 0 \<Longrightarrow> cmp x z < 0"
  using swo_le_trans swo_asym by metis

lemma swo_le_lt_trans:
  "strict_weak_order cmp \<Longrightarrow> \<not> cmp y x < 0 \<Longrightarrow> cmp y z < 0 \<Longrightarrow> cmp x z < 0"
  using swo_le_trans swo_asym by metis

lemma length_swap [simp]: "length (swap data i j) = length data"
  by (simp add: swap_def)

lemma at_swap:
  "0 \<le> i \<Longrightarrow> i < int (length data) \<Longrightarrow> 0 \<le> j \<Longrightarrow> j < int (length data) \<Longrightarrow> 0 \<le> k
   \<Longrightarrow> at (swap data i j) k = (if k = j then at data i else if k = i then at data j else at data k)"
  by (auto simp: swap_def at_def nth_list_update nat_eq_iff)

lemma mset_swap:
  "0 \<le> i \<Longrightarrow> i < int (length data) \<Longrightarrow> 0 \<le> j \<Longrightarrow> j < int (length data)
   \<Longrightarrow> mset (swap data i j) = mset data"
  by (simp add: swap_def at_def mset_swap)

lemma swap_same [simp]: "0 \<le> i \<Longrightarrow> i < int (length data) \<Longrightarrow> swap data i i = data"
  by (simp add: swap_def at_def)

lemma swaps_length: "swaps a b data data' \<Longrightarrow> length data' = length data"
  by (induction rule: swaps.induct) simp_all

lemma swaps_mset: "swaps a b data data' \<Longrightarrow> mset data' = mset data"
  by (induction rule: swaps.induct) (simp_all add: mset_swap)

lemma swaps_outside:
  "swaps a b data data' \<Longrightarrow> 0 \<le> k \<Longrightarrow> k < a \<or> b \<le> k \<Longrightarrow> at data' k = at data k"
  by (induction rule: swaps.induct) (auto simp: at_swap)

lemma swaps_all_in:
  "swaps a b data data' \<Longrightarrow> (\<forall>k. a \<le> k \<and> k < b \<longrightarrow> P (at data k))
   \<Longrightarrow> a \<le> k \<Longrightarrow> k < b \<Longrightarrow> P (at data' k)"
proof (induction arbitrary: k rule: swaps.induct)
  case swaps_refl
  then show ?case by simp
next
  case (swaps_step data' i j)
  then show ?case by (simp add: at_swap)
qed

lemma swaps_trans_aux: "swaps a b data' data'' \<Longrightarrow> swaps a b data data' \<Longrightarrow> swaps a b data data''"
proof (induction rule: swaps.induct)
  case swaps_refl
  then show ?case by simp
next
  case (swaps_step d i j)
  then show ?case by (auto intro: swaps.swaps_step)
qed

lemma swaps_trans: "swaps a b data data' \<Longrightarrow> swaps a b data' data'' \<Longrightarrow> swaps a b data data''"
  by (rule swaps_trans_aux)

lemma swaps_mono:
  "swaps a b data data' \<Longrightarrow> a' \<le> a \<Longrightarrow> b \<le> b' \<Longrightarrow> 0 \<le> a' \<Longrightarrow> b' \<le> int (length data)
   \<Longrightarrow> swaps a' b' data data'"
proof (induction rule: swaps.induct)
  case swaps_refl
  then show ?case by (simp add: swaps.swaps_refl)
next
  case (swaps_step d i j)
  then have "swaps a' b' data d" by simp
  moreover have "length d = length data" using swaps_step(1) by (rule swaps_length)
  ultimately show ?case using swaps_step by (auto intro!: swaps.swaps_step)
qed

lemma swaps_swap:
  "a \<le> i \<Longrightarrow> i < b \<Longrightarrow> a \<le> j \<Longrightarrow> j < b \<Longrightarrow> 0 \<le> a \<Longrightarrow> b \<le> int (length data)
   \<Longrightarrow> swaps a b data (swap data i j)"
  by (rule swaps_step [OF swaps_refl])

lemma swaps_then_swap:
  "swaps a b data data' \<Longrightarrow> a \<le> i \<Longrightarrow> i < b \<Longrightarrow> a \<le> j \<Longrightarrow> j < b \<Longrightarrow> 0 \<le> a
   \<Longrightarrow> b \<le> int (length data) \<Longrightarrow> swaps a b data (swap data' i j)"
  using swaps_length [of a b data data'] by (auto intro: swaps_step)

lemma swap_then_swaps:
  "swaps a b (swap data i j) data' \<Longrightarrow> a \<le> i \<Longrightarrow> i < b \<Longrightarrow> a \<le> j \<Longrightarrow> j < b \<Longrightarrow> 0 \<le> a
   \<Longrightarrow> b \<le> int (length data) \<Longrightarrow> swaps a b data data'"
  using swaps_trans [OF swaps_swap] by blast

subsection \<open>Insertion sort\<close>

lemma insertionSort_inner_swaps:
  "0 \<le> a \<Longrightarrow> a \<le> j \<Longrightarrow> j < b \<Longrightarrow> b \<le> int (length data)
   \<Longrightarrow> swaps a b data (insertionSort_inner data a j cmp)"
proof (induction data a j cmp rule: insertionSort_inner.induct)
  case (1 data a j cmp)
  show ?case
  proof (cases "j > a \<and> cmp (at data j) (at data (j - 1)) < 0")
    case True
    then have "swaps a b (swap data j (j - 1)) (insertionSort_inner (swap data j (j - 1)) a (j - 1) cmp)"
      using 1 by simp
    then have "swaps a b data (insertionSort_inner (swap data j (j - 1)) a (j - 1) cmp)"
      using True 1(2-) by (auto intro: swap_then_swaps)
    then show ?thesis
      using True by (subst insertionSort_inner.simps) simp
  next
    case False
    then show ?thesis
      by (subst insertionSort_inner.simps) (auto intro: swaps_refl)
  qed
qed

lemma sorted_except_swap:
  assumes swo: "strict_weak_order cmp"
    and r: "0 \<le> a" "a < j" "j < e" "e \<le> int (length data)"
    and se: "sorted_except cmp data a e j"
    and lt: "cmp (at data j) (at data (j - 1)) < 0"
  shows "sorted_except cmp (swap data j (j - 1)) a e (j - 1)"
  unfolding sorted_except_def
proof (intro allI impI)
  fix k l
  assume kl: "a \<le> k \<and> k < l \<and> l < e \<and> l \<noteq> j - 1"
  have sw: "at (swap data j (j - 1)) m =
      (if m = j - 1 then at data j else if m = j then at data (j - 1) else at data m)"
    if "0 \<le> m" for m
    using r that by (simp add: at_swap)
  have old: "\<not> cmp (at data l') (at data k') < 0" if "a \<le> k'" "k' < l'" "l' < e" "l' \<noteq> j" for k' l'
    using se that by (simp add: sorted_except_def)
  show "\<not> cmp (at (swap data j (j - 1)) l) (at (swap data j (j - 1)) k) < 0"
  proof (cases "l = j")
    case True
    show ?thesis
    proof (cases "k = j - 1")
      case True
      then show ?thesis using \<open>l = j\<close> kl r lt swo_asym [OF swo] by (simp add: sw)
    next
      case False
      then have "\<not> cmp (at data (j - 1)) (at data k) < 0"
        using kl \<open>l = j\<close> by (intro old) auto
      then show ?thesis using \<open>l = j\<close> False kl r by (simp add: sw)
    qed
  next
    case False
    then show ?thesis
      using kl r old [of k l] old [of "j - 1" l] old [of j l] old [of k "j - 1"]
      by (auto simp: sw)
  qed
qed

lemma insertionSort_inner_sorted:
  assumes swo: "strict_weak_order cmp"
  shows "0 \<le> a \<Longrightarrow> a \<le> j \<Longrightarrow> j < e \<Longrightarrow> e \<le> int (length data)
   \<Longrightarrow> sorted_except cmp data a e j
   \<Longrightarrow> sorted_between cmp (insertionSort_inner data a j cmp) a e"
  using swo
proof (induction data a j cmp rule: insertionSort_inner.induct)
  case (1 data a j cmp)
  note swo = \<open>strict_weak_order cmp\<close>
  have old: "\<not> cmp (at data l') (at data k') < 0" if "a \<le> k'" "k' < l'" "l' < e" "l' \<noteq> j" for k' l'
    using 1(6) that by (simp add: sorted_except_def)
  show ?case
  proof (cases "j > a \<and> cmp (at data j) (at data (j - 1)) < 0")
    case True
    then have "sorted_except cmp (swap data j (j - 1)) a e (j - 1)"
      using 1(2-) by (intro sorted_except_swap) auto
    then have "sorted_between cmp (insertionSort_inner (swap data j (j - 1)) a (j - 1) cmp) a e"
      using True 1(2-) by (intro 1(1)) auto
    then show ?thesis
      using True by (subst insertionSort_inner.simps) simp
  next
    case False
    have "sorted_between cmp data a e"
      unfolding sorted_between_def
    proof (intro allI impI)
      fix k l
      assume kl: "a \<le> k \<and> k < l \<and> l < e"
      show "\<not> cmp (at data l) (at data k) < 0"
      proof (cases "l = j")
        case l: True
        then have ja: "j > a" using kl by simp
        then have nlt: "\<not> cmp (at data j) (at data (j - 1)) < 0" using False by simp
        show ?thesis
        proof (cases "k = j - 1")
          case True
          then show ?thesis using nlt l by simp
        next
          case False
          then have "\<not> cmp (at data (j - 1)) (at data k) < 0"
            using kl l 1(2-) by (intro old) auto
          then show ?thesis using nlt l swo_le_trans [OF swo] by blast
        qed
      next
        case False
        then show ?thesis using kl by (intro old) auto
      qed
    qed
    then show ?thesis
      using False by (subst insertionSort_inner.simps) auto
  qed
qed

lemma insertionSort_outer_swaps:
  "0 \<le> a \<Longrightarrow> a < i \<Longrightarrow> b \<le> int (length data)
   \<Longrightarrow> swaps a b data (insertionSort_outer data a b i cmp)"
proof (induction data a b i cmp rule: insertionSort_outer.induct)
  case (1 data a b i cmp)
  show ?case
  proof (cases "i < b")
    case True
    have s1: "swaps a b data (insertionSort_inner data a i cmp)"
      using True 1(2-) by (intro insertionSort_inner_swaps) auto
    then have "length (insertionSort_inner data a i cmp) = length data"
      by (rule swaps_length)
    then have "swaps a b (insertionSort_inner data a i cmp)
        (insertionSort_outer (insertionSort_inner data a i cmp) a b (i + 1) cmp)"
      using True 1(2-) by (intro 1(1)) auto
    with s1 show ?thesis
      using True by (subst insertionSort_outer.simps) (auto intro: swaps_trans)
  next
    case False
    then show ?thesis
      by (subst insertionSort_outer.simps) (auto intro: swaps_refl)
  qed
qed

lemma insertionSort_outer_sorted:
  assumes swo: "strict_weak_order cmp"
  shows "0 \<le> a \<Longrightarrow> a < i \<Longrightarrow> b \<le> int (length data) \<Longrightarrow> sorted_between cmp data a i
   \<Longrightarrow> sorted_between cmp (insertionSort_outer data a b i cmp) a b"
  using swo
proof (induction data a b i cmp rule: insertionSort_outer.induct)
  case (1 data a b i cmp)
  note swo = \<open>strict_weak_order cmp\<close>
  show ?case
  proof (cases "i < b")
    case True
    have "sorted_except cmp data a (i + 1) i"
      using 1(5) by (auto simp: sorted_except_def sorted_between_def)
    then have s: "sorted_between cmp (insertionSort_inner data a i cmp) a (i + 1)"
      using True 1(2-) by (intro insertionSort_inner_sorted) auto
    have "swaps a b data (insertionSort_inner data a i cmp)"
      using True 1(2-) by (intro insertionSort_inner_swaps) auto
    then have "length (insertionSort_inner data a i cmp) = length data"
      by (rule swaps_length)
    then have "sorted_between cmp
        (insertionSort_outer (insertionSort_inner data a i cmp) a b (i + 1) cmp) a b"
      using True 1(2-) s by (intro 1(1)) auto
    then show ?thesis
      using True by (subst insertionSort_outer.simps) auto
  next
    case False
    then show ?thesis
      using 1(5) by (subst insertionSort_outer.simps) (auto simp: sorted_between_def)
  qed
qed

lemma insertionSortCmpFunc_swaps:
  "0 \<le> a \<Longrightarrow> b \<le> int (length data) \<Longrightarrow> swaps a b data (insertionSortCmpFunc data a b cmp)"
  by (simp add: insertionSortCmpFunc_def insertionSort_outer_swaps)

lemma insertionSortCmpFunc_sorted:
  "strict_weak_order cmp \<Longrightarrow> 0 \<le> a \<Longrightarrow> b \<le> int (length data)
   \<Longrightarrow> sorted_between cmp (insertionSortCmpFunc data a b cmp) a b"
  unfolding insertionSortCmpFunc_def
  by (rule insertionSort_outer_sorted) (auto simp: sorted_between_def)

subsection \<open>Partitioning\<close>

lemma partition_up_spec:
  "i \<le> j + 1 \<Longrightarrow>
     i \<le> partition_up data a i j cmp \<and> partition_up data a i j cmp \<le> j + 1
     \<and> (\<forall>k. i \<le> k \<and> k < partition_up data a i j cmp \<longrightarrow> cmp (at data k) (at data a) < 0)
     \<and> (partition_up data a i j cmp \<le> j \<longrightarrow>
          \<not> cmp (at data (partition_up data a i j cmp)) (at data a) < 0)"
proof (induction data a i j cmp rule: partition_up.induct)
  case (1 data a i j cmp)
  show ?case
  proof (cases "i \<le> j \<and> cmp (at data i) (at data a) < 0")
    case True
    then have eq: "partition_up data a i j cmp = partition_up data a (i + 1) j cmp"
      by (subst partition_up.simps) simp
    have ih: "i + 1 \<le> partition_up data a (i + 1) j cmp \<and> partition_up data a (i + 1) j cmp \<le> j + 1
     \<and> (\<forall>k. i + 1 \<le> k \<and> k < partition_up data a (i + 1) j cmp \<longrightarrow> cmp (at data k) (at data a) < 0)
     \<and> (partition_up data a (i + 1) j cmp \<le> j \<longrightarrow>
          \<not> cmp (at data (partition_up data a (i + 1) j cmp)) (at data a) < 0)"
      using True by (intro 1(1)) auto
    have "cmp (at data k) (at data a) < 0" if "i \<le> k" "k < partition_up data a (i + 1) j cmp" for k
      using that ih True by (cases "k = i") auto
    then show ?thesis using ih by (auto simp: eq)
  next
    case False
    then have eq: "partition_up data a i j cmp = i"
      by (subst partition_up.simps) auto
    show ?thesis using False 1(2) by (auto simp: eq)
  qed
qed

lemma partition_down_spec:
  "i \<le> j + 1 \<Longrightarrow>
     i - 1 \<le> partition_down data a i j cmp \<and> partition_down data a i j cmp \<le> j
     \<and> (\<forall>k. partition_down data a i j cmp < k \<and> k \<le> j \<longrightarrow> \<not> cmp (at data k) (at data a) < 0)
     \<and> (i \<le> partition_down data a i j cmp \<longrightarrow>
          cmp (at data (partition_down data a i j cmp)) (at data a) < 0)"
proof (induction data a i j cmp rule: partition_down.induct)
  case (1 data a i j cmp)
  show ?case
  proof (cases "i \<le> j \<and> \<not> cmp (at data j) (at data a) < 0")
    case True
    then have eq: "partition_down data a i j cmp = partition_down data a i (j - 1) cmp"
      by (subst partition_down.simps) simp
    have ih: "i - 1 \<le> partition_down data a i (j - 1) cmp \<and> partition_down data a i (j - 1) cmp \<le> j - 1
     \<and> (\<forall>k. partition_down data a i (j - 1) cmp < k \<and> k \<le> j - 1 \<longrightarrow> \<not> cmp (at data k) (at data a) < 0)
     \<and> (i \<le> partition_down data a i (j - 1) cmp \<longrightarrow>
          cmp (at data (partition_down data a i (j - 1) cmp)) (at data a) < 0)"
      using True by (intro 1(1)) auto
    have "\<not> cmp (at data k) (at data a) < 0" if "partition_down data a i (j - 1) cmp < k" "k \<le> j" for k
      using that ih True by (cases "k = j") auto
    then show ?thesis using ih by (auto simp: eq)
  next
    case False
    then have eq: "partition_down data a i j cmp = j"
      by (subst partition_down.simps) auto
    show ?thesis using False 1(2) by (auto simp: eq)
  qed
qed

lemma partition_loop_spec:
  "0 \<le> a \<Longrightarrow> a < i \<Longrightarrow> i \<le> j + 1 \<Longrightarrow> j < b \<Longrightarrow> b \<le> int (length data)
   \<Longrightarrow> partitioned cmp data a b i j
   \<Longrightarrow> swaps (a + 1) b data (fst (partition_loop data a i j cmp))
     \<and> a \<le> snd (partition_loop data a i j cmp) \<and> snd (partition_loop data a i j cmp) < b
     \<and> partitioned cmp (fst (partition_loop data a i j cmp)) a b
          (snd (partition_loop data a i j cmp) + 1) (snd (partition_loop data a i j cmp))"
proof (induction data a i j cmp rule: partition_loop.induct)
  case (1 data a i j cmp)
  define i' where "i' = partition_up data a i j cmp"
  define j' where "j' = partition_down data a i' j cmp"
  have up: "i \<le> i'" "i' \<le> j + 1"
    "\<And>k. i \<le> k \<Longrightarrow> k < i' \<Longrightarrow> cmp (at data k) (at data a) < 0"
    "i' \<le> j \<Longrightarrow> \<not> cmp (at data i') (at data a) < 0"
    using partition_up_spec [OF 1(4), of data a cmp] by (auto simp: i'_def)
  have down: "i' - 1 \<le> j'" "j' \<le> j"
    "\<And>k. j' < k \<Longrightarrow> k \<le> j \<Longrightarrow> \<not> cmp (at data k) (at data a) < 0"
    "i' \<le> j' \<Longrightarrow> cmp (at data j') (at data a) < 0"
    using partition_down_spec [OF up(2), of data a cmp] by (auto simp: j'_def)
  have p: "partitioned cmp data a b i' j'"
    using 1(7) up(3) down(3) unfolding partitioned_def
    by (metis not_le_imp_less)
  show ?case
  proof (cases "i' > j'")
    case True
    then have eq: "partition_loop data a i j cmp = (data, j')"
      by (subst partition_loop.simps) (simp add: Let_def i'_def [symmetric] j'_def [symmetric])
    have "partitioned cmp data a b (j' + 1) j'"
      using p True unfolding partitioned_def by auto
    then show ?thesis
      using True up down 1(2-) by (auto simp: eq intro: swaps_refl)
  next
    case False
    then have eq: "partition_loop data a i j cmp = partition_loop (swap data i' j') a (i' + 1) (j' - 1) cmp"
      by (subst partition_loop.simps) (simp add: Let_def i'_def [symmetric] j'_def [symmetric])
    have ne: "i' < j'"
      using False up(4) down(4) down(2) by (cases "i' = j'") auto
    have r: "0 \<le> i'" "i' < int (length data)" "0 \<le> j'" "j' < int (length data)" "a < i'" "a < j'"
      using ne up down 1(2-) by auto
    have sw: "at (swap data i' j') m =
        (if m = j' then at data i' else if m = i' then at data j' else at data m)" if "0 \<le> m" for m
      using r that by (simp add: at_swap)
    have p': "partitioned cmp (swap data i' j') a b (i' + 1) (j' - 1)"
      unfolding partitioned_def
    proof (intro conjI allI impI)
      fix k assume "a < k \<and> k < i' + 1"
      then show "cmp (at (swap data i' j') k) (at (swap data i' j') a) < 0"
        using p r ne down(4) 1(2) unfolding partitioned_def by (auto simp: sw)
    next
      fix k assume "j' - 1 < k \<and> k < b"
      then show "\<not> cmp (at (swap data i' j') k) (at (swap data i' j') a) < 0"
        using p r ne up(4) down(2) 1(2) unfolding partitioned_def by (auto simp: sw)
    qed
    have ih: "swaps (a + 1) b (swap data i' j') (fst (partition_loop (swap data i' j') a (i' + 1) (j' - 1) cmp))
     \<and> a \<le> snd (partition_loop (swap data i' j') a (i' + 1) (j' - 1) cmp)
     \<and> snd (partition_loop (swap data i' j') a (i' + 1) (j' - 1) cmp) < b
     \<and> partitioned cmp (fst (partition_loop (swap data i' j') a (i' + 1) (j' - 1) cmp)) a b
          (snd (partition_loop (swap data i' j') a (i' + 1) (j' - 1) cmp) + 1)
          (snd (partition_loop (swap data i' j') a (i' + 1) (j' - 1) cmp))"
      using False ne r down(2) 1(2-) p'
      by (intro 1(1) [OF i'_def j'_def]) auto
    have "swaps (a + 1) b data (fst (partition_loop (swap data i' j') a (i' + 1) (j' - 1) cmp))"
      using ih r ne down(2) 1(2-) by (intro swap_then_swaps [of "a + 1" b data i' j']) auto
    then show ?thesis using ih by (simp add: eq)
  qed
qed

lemma partitionCmpFunc_eq:
  "fst (partitionCmpFunc data a b pivot cmp) =
     swap (fst (partition_loop (swap data a pivot) a (a + 1) (b - 1) cmp))
       (snd (partition_loop (swap data a pivot) a (a + 1) (b - 1) cmp)) a"
  "fst (snd (partitionCmpFunc data a b pivot cmp)) =
     snd (partition_loop (swap data a pivot) a (a + 1) (b - 1) cmp)"
  by (simp_all add: partitionCmpFunc_def Let_def
      partition_loop.simps [of "swap data a pivot" a "a + 1" "b - 1" cmp] split: prod.splits)

lemma partitionCmpFunc_spec:
  assumes r: "0 \<le> a" "a < b" "b \<le> int (length data)" "a \<le> pivot" "pivot < b"
    and res: "partitionCmpFunc data a b pivot cmp = (out, mid, alreadyPartitioned)"
  shows "swaps a b data out"
    and "a \<le> mid" and "mid < b"
    and "\<And>k. a \<le> k \<Longrightarrow> k < mid \<Longrightarrow> cmp (at out k) (at out mid) < 0"
    and "\<And>k. mid < k \<Longrightarrow> k < b \<Longrightarrow> \<not> cmp (at out k) (at out mid) < 0"
proof -
  define d where "d = swap data a pivot"
  define d' where "d' = fst (partition_loop d a (a + 1) (b - 1) cmp)"
  define j where "j = snd (partition_loop d a (a + 1) (b - 1) cmp)"
  have out: "out = swap d' j a" and mid: "mid = j"
    using res partitionCmpFunc_eq [of data a b pivot cmp]
    by (simp_all add: d_def d'_def j_def)
  have ld: "length d = length data" by (simp add: d_def)
  have s0: "swaps a b data d"
    unfolding d_def using r by (intro swaps_swap) auto
  have "partitioned cmp d a b (a + 1) (b - 1)"
    by (simp add: partitioned_def)
  then have spec: "swaps (a + 1) b d d'" "a \<le> j" "j < b" "partitioned cmp d' a b (j + 1) j"
    using partition_loop_spec [of a "a + 1" "b - 1" b d cmp] r ld
    by (simp_all add: d'_def j_def)
  have ld': "length d' = length data"
    using swaps_length [OF spec(1)] ld by simp
  have s1: "swaps a b d d'"
    using swaps_mono [OF spec(1), of a b] r ld by auto
  have s2: "swaps a b d' (swap d' j a)"
    using spec r ld' by (intro swaps_swap) auto
  show "swaps a b data out"
    unfolding out by (rule swaps_trans [OF swaps_trans [OF s0 s1] s2])
  show "a \<le> mid" "mid < b" using spec mid by simp_all
  have sw: "at (swap d' j a) m =
      (if m = a then at d' j else if m = j then at d' a else at d' m)" if "0 \<le> m" for m
    using r spec ld' that by (simp add: at_swap)
  show "cmp (at out k) (at out mid) < 0" if "a \<le> k" "k < mid" for k
    using that spec(2-) r mid unfolding out partitioned_def by (auto simp: sw)
  show "\<not> cmp (at out k) (at out mid) < 0" if "mid < k" "k < b" for k
    using that spec(2-) r mid unfolding out partitioned_def by (auto simp: sw)
qed

lemma partitionEqual_up_spec:
  "i \<le> j + 1 \<Longrightarrow>
     i \<le> partitionEqual_up data a i j cmp \<and> partitionEqual_up data a i j cmp \<le> j + 1
     \<and> (\<forall>k. i \<le> k \<and> k < partitionEqual_up data a i j cmp \<longrightarrow> \<not> cmp (at data a) (at data k) < 0)
     \<and> (partitionEqual_up data a i j cmp \<le> j \<longrightarrow>
          cmp (at data a) (at data (partitionEqual_up data a i j cmp)) < 0)"
proof (induction data a i j cmp rule: partitionEqual_up.induct)
  case (1 data a i j cmp)
  show ?case
  proof (cases "i \<le> j \<and> \<not> cmp (at data a) (at data i) < 0")
    case True
    then have eq: "partitionEqual_up data a i j cmp = partitionEqual_up data a (i + 1) j cmp"
      by (subst partitionEqual_up.simps) simp
    have ih: "i + 1 \<le> partitionEqual_up data a (i + 1) j cmp
     \<and> partitionEqual_up data a (i + 1) j cmp \<le> j + 1
     \<and> (\<forall>k. i + 1 \<le> k \<and> k < partitionEqual_up data a (i + 1) j cmp
            \<longrightarrow> \<not> cmp (at data a) (at data k) < 0)
     \<and> (partitionEqual_up data a (i + 1) j cmp \<le> j \<longrightarrow>
          cmp (at data a) (at data (partitionEqual_up data a (i + 1) j cmp)) < 0)"
      using True by (intro 1(1)) auto
    have "\<not> cmp (at data a) (at data k) < 0"
      if "i \<le> k" "k < partitionEqual_up data a (i + 1) j cmp" for k
      using that ih True by (cases "k = i") auto
    then show ?thesis using ih by (auto simp: eq)
  next
    case False
    then have eq: "partitionEqual_up data a i j cmp = i"
      by (subst partitionEqual_up.simps) auto
    show ?thesis using False 1(2) by (auto simp: eq)
  qed
qed

lemma partitionEqual_down_spec:
  "i \<le> j + 1 \<Longrightarrow>
     i - 1 \<le> partitionEqual_down data a i j cmp \<and> partitionEqual_down data a i j cmp \<le> j
     \<and> (\<forall>k. partitionEqual_down data a i j cmp < k \<and> k \<le> j \<longrightarrow> cmp (at data a) (at data k) < 0)
     \<and> (i \<le> partitionEqual_down data a i j cmp \<longrightarrow>
          \<not> cmp (at data a) (at data (partitionEqual_down data a i j cmp)) < 0)"
proof (induction data a i j cmp rule: partitionEqual_down.induct)
  case (1 data a i j cmp)
  show ?case
  proof (cases "i \<le> j \<and> cmp (at data a) (at data j) < 0")
    case True
    then have eq: "partitionEqual_down data a i j cmp = partitionEqual_down data a i (j - 1) cmp"
      by (subst partitionEqual_down.simps) simp
    have ih: "i - 1 \<le> partitionEqual_down data a i (j - 1) cmp
     \<and> partitionEqual_down data a i (j - 1) cmp \<le> j - 1
     \<and> (\<forall>k. partitionEqual_down data a i (j - 1) cmp < k \<and> k \<le> j - 1
            \<longrightarrow> cmp (at data a) (at data k) < 0)
     \<and> (i \<le> partitionEqual_down data a i (j - 1) cmp \<longrightarrow>
          \<not> cmp (at data a) (at data (partitionEqual_down data a i (j - 1) cmp)) < 0)"
      using True by (intro 1(1)) auto
    have "cmp (at data a) (at data k) < 0"
      if "partitionEqual_down data a i (j - 1) cmp < k" "k \<le> j" for k
      using that ih True by (cases "k = j") auto
    then show ?thesis using ih by (auto simp: eq)
  next
    case False
    then have eq: "partitionEqual_down data a i j cmp = j"
      by (subst partitionEqual_down.simps) auto
    show ?thesis using False 1(2) by (auto simp: eq)
  qed
qed

lemma partitionEqual_loop_spec:
  "0 \<le> a \<Longrightarrow> a < i \<Longrightarrow> i \<le> j + 1 \<Longrightarrow> j < b \<Longrightarrow> b \<le> int (length data)
   \<Longrightarrow> partitionedEqual cmp data a b i j
   \<Longrightarrow> swaps (a + 1) b data (fst (partitionEqual_loop data a i j cmp))
     \<and> a < snd (partitionEqual_loop data a i j cmp) \<and> snd (partitionEqual_loop data a i j cmp) \<le> b
     \<and> partitionedEqual cmp (fst (partitionEqual_loop data a i j cmp)) a b
          (snd (partitionEqual_loop data a i j cmp)) (snd (partitionEqual_loop data a i j cmp) - 1)"
proof (induction data a i j cmp rule: partitionEqual_loop.induct)
  case (1 data a i j cmp)
  define i' where "i' = partitionEqual_up data a i j cmp"
  define j' where "j' = partitionEqual_down data a i' j cmp"
  have up: "i \<le> i'" "i' \<le> j + 1"
    "\<And>k. i \<le> k \<Longrightarrow> k < i' \<Longrightarrow> \<not> cmp (at data a) (at data k) < 0"
    "i' \<le> j \<Longrightarrow> cmp (at data a) (at data i') < 0"
    using partitionEqual_up_spec [OF 1(4), of data a cmp] by (auto simp: i'_def)
  have down: "i' - 1 \<le> j'" "j' \<le> j"
    "\<And>k. j' < k \<Longrightarrow> k \<le> j \<Longrightarrow> cmp (at data a) (at data k) < 0"
    "i' \<le> j' \<Longrightarrow> \<not> cmp (at data a) (at data j') < 0"
    using partitionEqual_down_spec [OF up(2), of data a cmp] by (auto simp: j'_def)
  have p: "partitionedEqual cmp data a b i' j'"
    using 1(7) up(3) down(3) unfolding partitionedEqual_def
    by (metis not_le_imp_less)
  show ?case
  proof (cases "i' > j'")
    case True
    then have eq: "partitionEqual_loop data a i j cmp = (data, i')"
      by (subst partitionEqual_loop.simps) (simp add: Let_def i'_def [symmetric] j'_def [symmetric])
    have "partitionedEqual cmp data a b i' (i' - 1)"
      using p True unfolding partitionedEqual_def by auto
    then show ?thesis
      using True up down 1(2-) by (auto simp: eq intro: swaps_refl)
  next
    case False
    then have eq: "partitionEqual_loop data a i j cmp =
        partitionEqual_loop (swap data i' j') a (i' + 1) (j' - 1) cmp"
      by (subst partitionEqual_loop.simps) (simp add: Let_def i'_def [symmetric] j'_def [symmetric])
    have ne: "i' < j'"
      using False up(4) down(4) down(2) by (cases "i' = j'") auto
    have r: "0 \<le> i'" "i' < int (length data)" "0 \<le> j'" "j' < int (length data)" "a < i'" "a < j'"
      using ne up down 1(2-) by auto
    have sw: "at (swap data i' j') m =
        (if m = j' then at data i' else if m = i' then at data j' else at data m)" if "0 \<le> m" for m
      using r that by (simp add: at_swap)
    have p': "partitionedEqual cmp (swap data i' j') a b (i' + 1) (j' - 1)"
      unfolding partitionedEqual_def
    proof (intro conjI allI impI)
      fix k assume "a < k \<and> k < i' + 1"
      then show "\<not> cmp (at (swap data i' j') a) (at (swap data i' j') k) < 0"
        using p r ne down(4) 1(2) unfolding partitionedEqual_def by (auto simp: sw)
    next
      fix k assume "j' - 1 < k \<and> k < b"
      then show "cmp (at (swap data i' j') a) (at (swap data i' j') k) < 0"
        using p r ne up(4) down(2) 1(2) unfolding partitionedEqual_def by (auto simp: sw)
    qed
    have ih: "swaps (a + 1) b (swap data i' j')
        (fst (partitionEqual_loop (swap data i' j') a (i' + 1) (j' - 1) cmp))
     \<and> a < snd (partitionEqual_loop (swap data i' j') a (i' + 1) (j' - 1) cmp)
     \<and> snd (partitionEqual_loop (swap data i' j') a (i' + 1) (j' - 1) cmp) \<le> b
     \<and> partitionedEqual cmp (fst (partitionEqual_loop (swap data i' j') a (i' + 1) (j' - 1) cmp)) a b
          (snd (partitionEqual_loop (swap data i' j') a (i' + 1) (j' - 1) cmp))
          (snd (partitionEqual_loop (swap data i' j') a (i' + 1) (j' - 1) cmp) - 1)"
      using False ne r down(2) 1(2-) p'
      by (intro 1(1) [OF i'_def j'_def]) auto
    have "swaps (a + 1) b data
        (fst (partitionEqual_loop (swap data i' j') a (i' + 1) (j' - 1) cmp))"
      using ih r ne down(2) 1(2-) by (intro swap_then_swaps [of "a + 1" b data i' j']) auto
    then show ?thesis using ih by (simp add: eq)
  qed
qed

lemma partitionEqualCmpFunc_spec:
  assumes r: "0 \<le> a" "a < b" "b \<le> int (length data)" "a \<le> pivot" "pivot < b"
    and res: "partitionEqualCmpFunc data a b pivot cmp = (out, mid)"
  shows "swaps a b data out"
    and "a < mid" and "mid \<le> b"
    and "at out a = at data pivot"
    and "\<And>k. a < k \<Longrightarrow> k < mid \<Longrightarrow> \<not> cmp (at data pivot) (at out k) < 0"
    and "\<And>k. mid \<le> k \<Longrightarrow> k < b \<Longrightarrow> cmp (at data pivot) (at out k) < 0"
proof -
  define d where "d = swap data a pivot"
  have out: "out = fst (partitionEqual_loop d a (a + 1) (b - 1) cmp)"
    and mid: "mid = snd (partitionEqual_loop d a (a + 1) (b - 1) cmp)"
    using res by (simp_all add: partitionEqualCmpFunc_def d_def)
  have ld: "length d = length data" by (simp add: d_def)
  have s0: "swaps a b data d"
    unfolding d_def using r by (intro swaps_swap) auto
  have da: "at d a = at data pivot"
    using r by (simp add: d_def at_swap)
  have "partitionedEqual cmp d a b (a + 1) (b - 1)"
    by (simp add: partitionedEqual_def)
  then have spec: "swaps (a + 1) b d out" "a < mid" "mid \<le> b" "partitionedEqual cmp out a b mid (mid - 1)"
    using partitionEqual_loop_spec [of a "a + 1" "b - 1" b d cmp] r ld
    by (simp_all add: out mid)
  have s1: "swaps a b d out"
    using swaps_mono [OF spec(1), of a b] r ld by auto
  show "swaps a b data out"
    by (rule swaps_trans [OF s0 s1])
  show "a < mid" "mid \<le> b" using spec by simp_all
  show oa: "at out a = at data pivot"
    using swaps_outside [OF spec(1), of a] r da by simp
  show "\<not> cmp (at data pivot) (at out k) < 0" if "a < k" "k < mid" for k
    using that spec(4) oa unfolding partitionedEqual_def by auto
  show "cmp (at data pivot) (at out k) < 0" if "mid \<le> k" "k < b" for k
    using that spec(4) oa unfolding partitionedEqual_def by auto
qed

subsection \<open>Pivot choice and reversal\<close>

lemma sdiv_nonneg [simp]: "0 \<le> x \<Longrightarrow> 0 < y \<Longrightarrow> x sdiv y = x div (y :: int)"
  by (cases "x = 0") (simp_all add: signed_divide_int_def)

lemma medianCmpFunc_in: "fst (medianCmpFunc data x y z s cmp) \<in> {x, y, z}"
  by (auto simp: medianCmpFunc_def order2CmpFunc_def split: prod.splits if_splits)

lemma medianAdjacentCmpFunc_in: "fst (medianAdjacentCmpFunc data x s cmp) \<in> {x - 1, x, x + 1}"
  using medianCmpFunc_in [of data "x - 1" x "x + 1" s cmp]
  by (simp add: medianAdjacentCmpFunc_def)

lemma choosePivotCmpFunc_range:
  assumes "a < b"
  shows "a \<le> fst (choosePivotCmpFunc data a b cmp) \<and> fst (choosePivotCmpFunc data a b cmp) < b"
proof -
  define l where "l = b - a"
  define i where "i = a + l div 4"
  define j where "j = a + l div 4 * 2"
  define k where "k = a + l div 4 * 3"
  have l: "0 < l" using assms by (simp add: l_def)
  have b: "b = a + l" by (simp add: l_def)
  show ?thesis
  proof (cases "l \<ge> 8")
    case False
    then show ?thesis
      using l by (auto simp: choosePivotCmpFunc_def Let_def l_def [symmetric] b)
  next
    case l8: True
    show ?thesis
    proof (cases "l \<ge> 50")
      case False
      have "fst (medianCmpFunc data i j k 0 cmp) \<in> {i, j, k}"
        by (rule medianCmpFunc_in)
      moreover have "a \<le> i" "i < b" "a \<le> j" "j < b" "a \<le> k" "k < b"
        using l8 by (auto simp: i_def j_def k_def b)
      ultimately have "a \<le> fst (medianCmpFunc data i j k 0 cmp) \<and> fst (medianCmpFunc data i j k 0 cmp) < b"
        by auto
      then show ?thesis
        using l l8 False
        by (auto simp: choosePivotCmpFunc_def Let_def l_def [symmetric] i_def [symmetric]
            j_def [symmetric] k_def [symmetric] split: prod.splits)
    next
      case True
      define ri where "ri = medianAdjacentCmpFunc data i 0 cmp"
      define rj where "rj = medianAdjacentCmpFunc data j (snd ri) cmp"
      define rk where "rk = medianAdjacentCmpFunc data k (snd rj) cmp"
      have "fst ri \<in> {i - 1, i, i + 1}" "fst rj \<in> {j - 1, j, j + 1}" "fst rk \<in> {k - 1, k, k + 1}"
        unfolding ri_def rj_def rk_def by (rule medianAdjacentCmpFunc_in)+
      moreover have "a \<le> i - 1" "i + 1 < b" "a \<le> j - 1" "j + 1 < b" "a \<le> k - 1" "k + 1 < b"
        using True by (auto simp: i_def j_def k_def b)
      ultimately have r: "a \<le> fst ri" "fst ri < b" "a \<le> fst rj" "fst rj < b" "a \<le> fst rk" "fst rk < b"
        by auto
      have "fst (medianCmpFunc data (fst ri) (fst rj) (fst rk) (snd rk) cmp) \<in> {fst ri, fst rj, fst rk}"
        by (rule medianCmpFunc_in)
      then have "a \<le> fst (medianCmpFunc data (fst ri) (fst rj) (fst rk) (snd rk) cmp)
          \<and> fst (medianCmpFunc data (fst ri) (fst rj) (fst rk) (snd rk) cmp) < b"
        using r by auto
      then show ?thesis
        using l l8 True
        by (auto simp: choosePivotCmpFunc_def Let_def l_def [symmetric] i_def [symmetric]
            j_def [symmetric] k_def [symmetric] ri_def [symmetric] rj_def rk_def
            split: prod.splits)
    qed
  qed
qed

lemma reverseRange_loop_swaps:
  "0 \<le> a \<Longrightarrow> a \<le> i \<Longrightarrow> j < b \<Longrightarrow> b \<le> int (length data)
   \<Longrightarrow> swaps a b data (reverseRange_loop data i j)"
proof (induction data i j rule: reverseRange_loop.induct)
  case (1 data i j)
  show ?case
  proof (cases "i < j")
    case True
    then have "swaps a b (swap data i j) (reverseRange_loop (swap data i j) (i + 1) (j - 1))"
      using 1(2-) by (intro 1(1)) auto
    then have "swaps a b data (reverseRange_loop (swap data i j) (i + 1) (j - 1))"
      using True 1(2-) by (intro swap_then_swaps [of a b data i j]) auto
    then show ?thesis
      using True by (subst reverseRange_loop.simps) simp
  next
    case False
    then show ?thesis
      by (subst reverseRange_loop.simps) (auto intro: swaps_refl)
  qed
qed

lemma reverseRangeCmpFunc_swaps:
  "0 \<le> a \<Longrightarrow> b \<le> int (length data) \<Longrightarrow> swaps a b data (reverseRangeCmpFunc data a b cmp)"
  by (simp add: reverseRangeCmpFunc_def reverseRange_loop_swaps)

subsection \<open>Pattern breaking\<close>

text \<open>
  \<open>bits.Len\<close> bounds its argument by a power of two, so the position drawn by
  \<open>breakPatternsCmpFunc\<close> lies in the range.
\<close>

lemma bits_Len_upper: "unat x < 2 ^ bits_Len x"
proof (induction x rule: bits_Len.induct)
  case (1 x)
  show ?case
  proof (cases "x = 0")
    case True
    then show ?thesis by (subst bits_Len.simps) simp
  next
    case False
    then have "unat (drop_bit 1 x) < 2 ^ bits_Len (drop_bit 1 x)" by (rule 1)
    then have "unat x div 2 < 2 ^ bits_Len (drop_bit 1 x)"
      by (simp add: drop_bit_eq_div unat_div)
    then have "unat x < 2 * 2 ^ bits_Len (drop_bit 1 x)" by linarith
    then show ?thesis using False by (subst bits_Len.simps) simp
  qed
qed

lemma bits_Len_lower: "x \<noteq> 0 \<Longrightarrow> 2 ^ bits_Len x \<le> 2 * unat x"
proof (induction x rule: bits_Len.induct)
  case (1 x)
  show ?case
  proof (cases "drop_bit 1 x = 0")
    case True
    then have "bits_Len (drop_bit 1 x) = 0" by (subst bits_Len.simps) simp
    then have "bits_Len x = 1" using 1(2) by (subst bits_Len.simps) simp
    moreover have "1 \<le> unat x" using 1(2) by (simp add: unat_gt_0 Suc_leI)
    ultimately show ?thesis by simp
  next
    case False
    then have "2 ^ bits_Len (drop_bit 1 x) \<le> 2 * unat (drop_bit 1 x)" using 1 by blast
    then have "2 ^ bits_Len (drop_bit 1 x) \<le> 2 * (unat x div 2)"
      by (simp add: drop_bit_eq_div unat_div)
    then have "2 * 2 ^ bits_Len (drop_bit 1 x) \<le> 2 * unat x" by linarith
    then show ?thesis using 1(2) by (subst bits_Len.simps) simp
  qed
qed

lemma bits_Len_le_63:
  assumes "x \<noteq> 0" "unat x < 2 ^ 63"
  shows "bits_Len x \<le> 63"
proof (rule ccontr)
  assume "\<not> bits_Len x \<le> 63"
  then have "64 \<le> bits_Len x" by simp
  then have "(2::nat) ^ 64 \<le> 2 ^ bits_Len x" by (rule power_increasing) simp
  also have "\<dots> \<le> 2 * unat x" using assms(1) by (rule bits_Len_lower)
  finally show False using assms(2) by simp
qed

lemma other_range:
  assumes len: "8 \<le> len" "len < 2 ^ 63"
  shows "0 \<le> sint (random AND (nextPowerOfTwo len - 1))
    \<and> sint (random AND (nextPowerOfTwo len - 1)) < 2 * len"
proof -
  define w :: "64 word" where "w = word_of_int len"
  define k where "k = bits_Len w"
  have "uint w = len"
    using len by (simp add: w_def uint_word_of_int)
  then have uw: "unat w = nat len"
    by (metis unat_eq_nat_uint)
  have w0: "w \<noteq> 0" using uw len by (metis nat_0_iff not_numeral_le_zero order_trans unat_0)
  have k63: "k \<le> 63" unfolding k_def using w0 uw len by (intro bits_Len_le_63) auto
  have m: "nextPowerOfTwo len - 1 = (mask k :: 64 word)"
    by (simp add: nextPowerOfTwo_def w_def [symmetric] k_def [symmetric] mask_eq_decr_exp)
  have u: "uint (random AND mask k) < 2 ^ k"
    by (simp add: and_mask_lt_2p)
  have "(2 :: int) ^ k \<le> 2 ^ 63"
    using k63 by (intro power_increasing) auto
  then have "uint (random AND mask k) < 2 ^ 63"
    using u by linarith
  moreover have "- (2 ^ 63) \<le> uint (random AND mask k)"
    by (rule order_trans [of _ 0]) simp_all
  ultimately have "signed_take_bit 63 (uint (random AND mask k)) = uint (random AND mask k)"
    by (intro signed_take_bit_int_eq_self)
  then have s: "sint (random AND mask k) = uint (random AND mask k)"
    by (simp add: sint_uint)
  have "(2 :: nat) ^ k \<le> 2 * nat len"
    using bits_Len_lower [OF w0] uw unfolding k_def by simp
  then have "int (2 ^ k) \<le> int (2 * nat len)"
    by (simp only: of_nat_le_iff)
  then have "(2 :: int) ^ k \<le> 2 * len"
    using len by simp
  then show ?thesis using u s m by simp
qed

lemma breakPatterns_loop_swaps:
  assumes r: "0 \<le> a" "8 \<le> len" "len < 2 ^ 63"
  shows "a + len \<le> int (length data) \<Longrightarrow> 0 \<le> i
    \<Longrightarrow> swaps a (a + len) data
      (breakPatterns_loop data a len (a + (len div 4) * 2 - 1) random (nextPowerOfTwo len) i)"
proof (induction "nat (3 - i)" arbitrary: data random i)
  case 0
  then have "\<not> i < 3" by simp
  then show ?case
    by (subst breakPatterns_loop.simps) (auto intro: swaps_refl)
next
  case (Suc n)
  then have i: "i < 3" by simp
  define rnd where "rnd = xorshift_Next random"
  define other0 where "other0 = sint (rnd AND (nextPowerOfTwo len - 1))"
  define other where "other = (if other0 \<ge> len then other0 - len else other0)"
  define x where "x = a + (len div 4) * 2 - 1 + i"
  have "0 \<le> other0 \<and> other0 < 2 * len"
    unfolding other0_def using r(2,3) by (rule other_range)
  then have o: "0 \<le> other" "other < len"
    by (auto simp: other_def)
  have x: "a \<le> x" "x < a + len"
    using i Suc(4) r(2) by (auto simp: x_def)
  have eq: "breakPatterns_loop data a len (a + (len div 4) * 2 - 1) random (nextPowerOfTwo len) i =
      breakPatterns_loop (swap data x (a + other)) a len (a + (len div 4) * 2 - 1) rnd
        (nextPowerOfTwo len) (i + 1)"
    using i by (subst breakPatterns_loop.simps)
      (simp add: Let_def rnd_def [symmetric] other0_def [symmetric] other_def x_def)
  have "swaps a (a + len) (swap data x (a + other))
      (breakPatterns_loop (swap data x (a + other)) a len (a + (len div 4) * 2 - 1) rnd
        (nextPowerOfTwo len) (i + 1))"
    using Suc(2-) by (intro Suc(1)) auto
  then show ?case
    unfolding eq using x o r Suc(3) by (intro swap_then_swaps [of a "a + len" data x "a + other"]) auto
qed

lemma breakPatternsCmpFunc_swaps:
  "0 \<le> a \<Longrightarrow> a \<le> b \<Longrightarrow> b \<le> int (length data) \<Longrightarrow> b - a < 2 ^ 63
   \<Longrightarrow> swaps a b data (breakPatternsCmpFunc data a b cmp)"
  using breakPatterns_loop_swaps [of a "b - a" data 0 "word_of_int (b - a)"]
  by (auto simp: breakPatternsCmpFunc_def Let_def intro: swaps_refl)

subsection \<open>Partial insertion sort\<close>

text \<open>
  The loop that shifts to the left runs down to index 1, not to \<open>a\<close>; it stops at \<open>a\<close>
  nevertheless, since no element of the range is less than \<open>data[a-1]\<close>.
\<close>

lemma lower_bounded_swaps:
  assumes "swaps a b data data'" "lower_bounded cmp data a b"
  shows "lower_bounded cmp data' a b"
  unfolding lower_bounded_def
proof (intro impI allI)
  fix k assume a: "0 < a" and k: "a \<le> k \<and> k < b"
  have "at data' (a - 1) = at data (a - 1)"
    using assms(1) a by (intro swaps_outside [of a b]) auto
  moreover have "\<not> cmp (at data' k) (at data (a - 1)) < 0"
    using assms a k by (intro swaps_all_in [of a b data data' "\<lambda>x. \<not> cmp x (at data (a - 1)) < 0"])
      (auto simp: lower_bounded_def)
  ultimately show "\<not> cmp (at data' k) (at data' (a - 1)) < 0" by simp
qed

lemma lower_bounded_subrange:
  "lower_bounded cmp data a b \<Longrightarrow> b' \<le> b \<Longrightarrow> lower_bounded cmp data a b'"
  by (auto simp: lower_bounded_def)

lemma sorted_between_swaps_outside:
  assumes "swaps c d data data'" "sorted_between cmp data a b" "0 \<le> a" "b \<le> c \<or> d \<le> a"
  shows "sorted_between cmp data' a b"
  unfolding sorted_between_def
proof (intro allI impI)
  fix i j assume ij: "a \<le> i \<and> i < j \<and> j < b"
  have "at data' i = at data i" "at data' j = at data j"
    using assms(1,3,4) ij by (auto intro!: swaps_outside [of c d])
  then show "\<not> cmp (at data' j) (at data' i) < 0"
    using assms(2) ij by (simp add: sorted_between_def)
qed

lemma partialInsertionSort_scan_spec:
  assumes swo: "strict_weak_order cmp"
  shows "a < i \<Longrightarrow> i \<le> b \<Longrightarrow> sorted_between cmp data a i
    \<Longrightarrow> i \<le> partialInsertionSort_scan data i b cmp
      \<and> partialInsertionSort_scan data i b cmp \<le> b
      \<and> sorted_between cmp data a (partialInsertionSort_scan data i b cmp)"
  using swo
proof (induction data i b cmp rule: partialInsertionSort_scan.induct)
  case (1 data i b cmp)
  note swo = \<open>strict_weak_order cmp\<close>
  show ?case
  proof (cases "i < b \<and> \<not> cmp (at data i) (at data (i - 1)) < 0")
    case True
    then have eq: "partialInsertionSort_scan data i b cmp = partialInsertionSort_scan data (i + 1) b cmp"
      by (subst partialInsertionSort_scan.simps) simp
    have "sorted_between cmp data a (i + 1)"
      unfolding sorted_between_def
    proof (intro allI impI)
      fix k l assume kl: "a \<le> k \<and> k < l \<and> l < i + 1"
      show "\<not> cmp (at data l) (at data k) < 0"
      proof (cases "l = i")
        case l: True
        show ?thesis
        proof (cases "k = i - 1")
          case True
          then show ?thesis using \<open>i < b \<and> \<not> cmp (at data i) (at data (i - 1)) < 0\<close> l by simp
        next
          case False
          then have "\<not> cmp (at data (i - 1)) (at data k) < 0"
            using 1(4) kl l by (auto simp: sorted_between_def)
          then show ?thesis
            using True l swo_le_trans [OF swo] by blast
        qed
      next
        case False
        then show ?thesis using 1(4) kl by (auto simp: sorted_between_def)
      qed
    qed
    then show ?thesis
      using True 1(2-) 1(1) [of ] swo by (auto simp: eq)
  next
    case False
    then have eq: "partialInsertionSort_scan data i b cmp = i"
      by (subst partialInsertionSort_scan.simps) auto
    show ?thesis using 1(2-) by (simp add: eq)
  qed
qed

lemma partialInsertionSort_left_eq:
  "0 \<le> a \<Longrightarrow> a \<le> j \<Longrightarrow> j < e \<Longrightarrow> e \<le> int (length data) \<Longrightarrow> lower_bounded cmp data a e
   \<Longrightarrow> partialInsertionSort_left data j cmp = insertionSort_inner data a j cmp"
proof (induction data a j cmp rule: insertionSort_inner.induct)
  case (1 data a j cmp)
  show ?case
  proof (cases "j > a \<and> cmp (at data j) (at data (j - 1)) < 0")
    case True
    have "swaps a e data (swap data j (j - 1))"
      using True 1(2-) by (intro swaps_swap) auto
    then have "lower_bounded cmp (swap data j (j - 1)) a e"
      using 1(6) by (rule lower_bounded_swaps)
    then have "partialInsertionSort_left (swap data j (j - 1)) (j - 1) cmp =
        insertionSort_inner (swap data j (j - 1)) a (j - 1) cmp"
      using True 1(2-) by (intro 1(1)) auto
    then show ?thesis
      using True 1(2)
      by (subst partialInsertionSort_left.simps, subst insertionSort_inner.simps) auto
  next
    case False
    then have "j = a \<or> \<not> cmp (at data j) (at data (j - 1)) < 0"
      using 1(3) by auto
    then have "\<not> (j \<ge> 1 \<and> cmp (at data j) (at data (j - 1)) < 0)"
      using 1(2-) by (auto simp: lower_bounded_def)
    then show ?thesis
      using False
      by (subst partialInsertionSort_left.simps, subst insertionSort_inner.simps) auto
  qed
qed

lemma partialInsertionSort_right_swaps:
  "0 \<le> a \<Longrightarrow> a < j \<Longrightarrow> b \<le> int (length data)
   \<Longrightarrow> swaps a b data (partialInsertionSort_right data j b cmp)"
proof (induction data j b cmp rule: partialInsertionSort_right.induct)
  case (1 data j b cmp)
  show ?case
  proof (cases "j < b \<and> cmp (at data j) (at data (j - 1)) < 0")
    case True
    then have "swaps a b (swap data j (j - 1))
        (partialInsertionSort_right (swap data j (j - 1)) (j + 1) b cmp)"
      using 1(2-) by (intro 1(1)) auto
    then have "swaps a b data (partialInsertionSort_right (swap data j (j - 1)) (j + 1) b cmp)"
      using True 1(2-) by (intro swap_then_swaps [of a b data j "j - 1"]) auto
    then show ?thesis
      using True by (subst partialInsertionSort_right.simps) simp
  next
    case False
    then show ?thesis
      by (subst partialInsertionSort_right.simps) (auto intro: swaps_refl)
  qed
qed

lemma partialInsertionSort_steps_spec:
  assumes swo: "strict_weak_order cmp"
  shows "0 \<le> a \<Longrightarrow> a < i \<Longrightarrow> i \<le> b \<Longrightarrow> b \<le> int (length data)
    \<Longrightarrow> lower_bounded cmp data a b \<Longrightarrow> sorted_between cmp data a i
    \<Longrightarrow> swaps a b data (fst (partialInsertionSort_steps data a b i j cmp))
      \<and> (snd (partialInsertionSort_steps data a b i j cmp)
           \<longrightarrow> sorted_between cmp (fst (partialInsertionSort_steps data a b i j cmp)) a b)"
  using swo
proof (induction data a b i j cmp rule: partialInsertionSort_steps.induct)
  case (1 data a b i j cmp)
  note swo = \<open>strict_weak_order cmp\<close>
  define i' where "i' = partialInsertionSort_scan data i b cmp"
  have scan: "i \<le> i'" "i' \<le> b" "sorted_between cmp data a i'"
    using partialInsertionSort_scan_spec [OF swo 1(3,4,7)] by (simp_all add: i'_def)
  consider (stop) "\<not> j < 5" | (sorted) "j < 5" "i' = b" | (short) "j < 5" "i' \<noteq> b" "b - a < 50"
    | (shift) "j < 5" "i' \<noteq> b" "\<not> b - a < 50"
    by blast
  then show ?case
  proof cases
    case stop
    then have "partialInsertionSort_steps data a b i j cmp = (data, False)"
      by (subst partialInsertionSort_steps.simps) simp
    then show ?thesis by (simp add: swaps_refl)
  next
    case sorted
    then have "partialInsertionSort_steps data a b i j cmp = (data, True)"
      by (subst partialInsertionSort_steps.simps) (simp add: Let_def i'_def [symmetric])
    then show ?thesis using scan sorted by (simp add: swaps_refl)
  next
    case short
    then have "partialInsertionSort_steps data a b i j cmp = (data, False)"
      by (subst partialInsertionSort_steps.simps) (simp add: Let_def i'_def [symmetric])
    then show ?thesis by (simp add: swaps_refl)
  next
    case shift
    define d1 where "d1 = swap data i' (i' - 1)"
    define d2 where "d2 = (if i' - a \<ge> 2 then partialInsertionSort_left d1 (i' - 1) cmp else d1)"
    define d3 where "d3 = (if b - i' \<ge> 2 then partialInsertionSort_right d2 (i' + 1) b cmp else d2)"
    have eq: "partialInsertionSort_steps data a b i j cmp =
        partialInsertionSort_steps d3 a b i' (j + 1) cmp"
      using shift by (subst partialInsertionSort_steps.simps)
        (simp add: Let_def i'_def [symmetric] d1_def d2_def d3_def)
    have ib: "i' < b" "a < i'" using shift scan 1(3) by auto
    have s1: "swaps a b data d1"
      unfolding d1_def using ib 1(2-) by (intro swaps_swap) auto
    have l1: "length d1 = length data" by (simp add: d1_def)
    have lb1: "lower_bounded cmp d1 a b"
      using s1 1(6) by (rule lower_bounded_swaps)
    have se1: "sorted_except cmp d1 a i' (i' - 1)"
      unfolding sorted_except_def
    proof (intro allI impI)
      fix k l assume kl: "a \<le> k \<and> k < l \<and> l < i' \<and> l \<noteq> i' - 1"
      then have "at d1 k = at data k" "at d1 l = at data l"
        using ib 1(2-) by (auto simp: d1_def at_swap)
      then show "\<not> cmp (at d1 l) (at d1 k) < 0"
        using scan(3) kl by (simp add: sorted_between_def)
    qed
    have s2: "swaps a i' d1 d2 \<and> sorted_between cmp d2 a i'"
    proof (cases "i' - a \<ge> 2")
      case True
      have "partialInsertionSort_left d1 (i' - 1) cmp = insertionSort_inner d1 a (i' - 1) cmp"
        using True ib 1(2-) l1 lower_bounded_subrange [OF lb1, of i']
        by (intro partialInsertionSort_left_eq [of a "i' - 1" i']) auto
      then have d2: "d2 = insertionSort_inner d1 a (i' - 1) cmp"
        using True by (simp add: d2_def)
      have "swaps a i' d1 d2"
        unfolding d2 using True ib 1(2-) l1 by (intro insertionSort_inner_swaps) auto
      moreover have "sorted_between cmp d2 a i'"
        unfolding d2 using True ib 1(2-) l1 se1 swo by (intro insertionSort_inner_sorted) auto
      ultimately show ?thesis by simp
    next
      case False
      then have "d2 = d1" by (simp add: d2_def)
      moreover have "sorted_between cmp d1 a i'"
        using False ib by (auto simp: sorted_between_def)
      ultimately show ?thesis by (simp add: swaps_refl)
    qed
    have l2: "length d2 = length data"
      using swaps_length [of a i' d1 d2] s2 l1 by simp
    have s2': "swaps a b d1 d2"
      using swaps_mono [of a i' d1 d2 a b] s2 ib 1(2-) l1 by auto
    have s3: "swaps i' b d2 d3"
    proof (cases "b - i' \<ge> 2")
      case True
      then show ?thesis
        unfolding d3_def using ib 1(2-) l2 by (auto intro!: partialInsertionSort_right_swaps)
    next
      case False
      then show ?thesis by (simp add: d3_def swaps_refl)
    qed
    have l3: "length d3 = length data"
      using swaps_length [OF s3] l2 by simp
    have s3': "swaps a b d2 d3"
      using swaps_mono [OF s3, of a b] ib 1(2-) l2 by auto
    have s: "swaps a b data d3"
      by (rule swaps_trans [OF swaps_trans [OF s1 s2'] s3'])
    have lb3: "lower_bounded cmp d3 a b"
      using s 1(6) by (rule lower_bounded_swaps)
    have so3: "sorted_between cmp d3 a i'"
      using s3 s2 1(2) by (intro sorted_between_swaps_outside [of i' b d2 d3]) auto
    have ih: "swaps a b d3 (fst (partialInsertionSort_steps d3 a b i' (j + 1) cmp))
      \<and> (snd (partialInsertionSort_steps d3 a b i' (j + 1) cmp)
           \<longrightarrow> sorted_between cmp (fst (partialInsertionSort_steps d3 a b i' (j + 1) cmp)) a b)"
      using shift ib 1(2) l3 1(5) lb3 so3 swo
      by (intro 1(1) [OF _ i'_def _ _ d1_def d2_def d3_def]) auto
    show ?thesis
      unfolding eq using ih s by (auto intro: swaps_trans)
  qed
qed

lemma partialInsertionSortCmpFunc_spec:
  assumes "strict_weak_order cmp" "0 \<le> a" "a < b" "b \<le> int (length data)"
    "lower_bounded cmp data a b"
  shows "swaps a b data (fst (partialInsertionSortCmpFunc data a b cmp))"
    and "snd (partialInsertionSortCmpFunc data a b cmp)
      \<Longrightarrow> sorted_between cmp (fst (partialInsertionSortCmpFunc data a b cmp)) a b"
  using partialInsertionSort_steps_spec [OF assms(1,2), of "a + 1" b data 0] assms(3-)
  by (auto simp: partialInsertionSortCmpFunc_def sorted_between_def)

subsection \<open>Heap sort\<close>

lemma siftDown_loop_swaps:
  "0 \<le> first \<Longrightarrow> first + hi \<le> int (length data)
   \<Longrightarrow> swaps first (first + hi) data (siftDown_loop data root hi first cmp)"
proof (induction data root hi first cmp rule: siftDown_loop.induct)
  case (1 data root hi first cmp)
  define c0 where "c0 = 2 * root + 1"
  define c where "c = (if c0 + 1 < hi \<and> cmp (at data (first + c0)) (at data (first + c0 + 1)) < 0
                     then c0 + 1 else c0)"
  show ?case
  proof (cases "c0 \<ge> hi \<or> root < 0")
    case True
    then show ?thesis
      by (subst siftDown_loop.simps) (auto simp: Let_def c0_def intro: swaps_refl)
  next
    case False
    then have c: "root < c" "c < hi" "0 \<le> root" by (auto simp: c_def c0_def)
    show ?thesis
    proof (cases "\<not> cmp (at data (first + root)) (at data (first + c)) < 0")
      case True
      then show ?thesis
        using False by (subst siftDown_loop.simps)
          (auto simp: Let_def c0_def [symmetric] c_def [symmetric] intro: swaps_refl)
    next
      case lt: False
      have eq: "siftDown_loop data root hi first cmp =
          siftDown_loop (swap data (first + root) (first + c)) c hi first cmp"
        using False lt by (subst siftDown_loop.simps)
          (simp add: Let_def c0_def [symmetric] c_def [symmetric])
      have "swaps first (first + hi) (swap data (first + root) (first + c))
          (siftDown_loop (swap data (first + root) (first + c)) c hi first cmp)"
        using False lt 1(2-)
        by (intro 1(1) [OF c0_def _ c_def]) (auto simp: c0_def)
      then show ?thesis
        unfolding eq using c 1(2-)
        by (intro swap_then_swaps [of first "first + hi" data "first + root" "first + c"]) auto
    qed
  qed
qed

lemma siftDown_loop_heap:
  assumes swo: "strict_weak_order cmp"
  shows "0 \<le> first \<Longrightarrow> first + hi \<le> int (length data) \<Longrightarrow> 0 \<le> lo \<Longrightarrow> lo \<le> root
   \<Longrightarrow> heap_except cmp data first lo hi root
   \<Longrightarrow> heap_from cmp (siftDown_loop data root hi first cmp) first lo hi"
  using swo
proof (induction data root hi first cmp rule: siftDown_loop.induct)
  case (1 data root hi first cmp)
  note swo = \<open>strict_weak_order cmp\<close>
  note he = \<open>heap_except cmp data first lo hi root\<close>
  define c0 where "c0 = 2 * root + 1"
  define c where "c = (if c0 + 1 < hi \<and> cmp (at data (first + c0)) (at data (first + c0 + 1)) < 0
                     then c0 + 1 else c0)"
  have root: "0 \<le> root" using 1(4,5) by simp
  show ?case
  proof (cases "c0 \<ge> hi \<or> root < 0")
    case True
    then have eq: "siftDown_loop data root hi first cmp = data"
      by (subst siftDown_loop.simps) (auto simp: Let_def c0_def)
    show ?thesis
      unfolding eq heap_from_def
    proof (intro allI impI)
      fix p ch assume a: "lo \<le> p \<and> (ch = 2 * p + 1 \<or> ch = 2 * p + 2) \<and> ch < hi"
      then have "p \<noteq> root" using True root by (auto simp: c0_def)
      then show "\<not> cmp (at data (first + p)) (at data (first + ch)) < 0"
        using he a unfolding heap_except_def by blast
    qed
  next
    case False
    then have c: "root < c" "c < hi" "c = 2 * root + 1 \<or> c = 2 * root + 2"
      by (auto simp: c_def c0_def)
    have larger: "\<not> cmp (at data (first + c)) (at data (first + ch)) < 0"
      if "ch = 2 * root + 1 \<or> ch = 2 * root + 2" "ch < hi" for ch
      using that swo_irrefl [OF swo] swo_asym [OF swo]
      by (auto simp: c_def c0_def add.assoc)
    show ?thesis
    proof (cases "\<not> cmp (at data (first + root)) (at data (first + c)) < 0")
      case True
      then have eq: "siftDown_loop data root hi first cmp = data"
        using False by (subst siftDown_loop.simps)
          (auto simp: Let_def c0_def [symmetric] c_def [symmetric])
      show ?thesis
        unfolding eq heap_from_def
      proof (intro allI impI)
        fix p ch assume a: "lo \<le> p \<and> (ch = 2 * p + 1 \<or> ch = 2 * p + 2) \<and> ch < hi"
        show "\<not> cmp (at data (first + p)) (at data (first + ch)) < 0"
        proof (cases "p = root")
          case True
          then show ?thesis
            using larger [of ch] a \<open>\<not> cmp (at data (first + root)) (at data (first + c)) < 0\<close>
              swo_le_trans [OF swo] by blast
        next
          case False
          then show ?thesis
            using he a unfolding heap_except_def by blast
        qed
      qed
    next
      case lt: False
      define d where "d = swap data (first + root) (first + c)"
      have eq: "siftDown_loop data root hi first cmp = siftDown_loop d c hi first cmp"
        using False lt by (subst siftDown_loop.simps)
          (simp add: Let_def c0_def [symmetric] c_def [symmetric] d_def)
      have sw: "at d (first + m) =
          (if m = c then at data (first + root) else if m = root then at data (first + c)
           else at data (first + m))" if "0 \<le> m" for m
        using that c root 1(2,3) by (simp add: d_def at_swap)
      have he': "heap_except cmp d first lo hi c"
        unfolding heap_except_def
      proof (intro conjI allI impI)
        fix p ch
        assume a: "lo \<le> p \<and> p \<noteq> c \<and> (ch = 2 * p + 1 \<or> ch = 2 * p + 2) \<and> ch < hi"
        then have p0: "0 \<le> p" "0 \<le> ch" using 1(4) by auto
        show "\<not> cmp (at d (first + p)) (at d (first + ch)) < 0"
        proof (cases "p = root")
          case True
          then show ?thesis
            using a p0 c lt larger [of ch] swo_asym [OF swo] by (auto simp: sw)
        next
          case False
          show ?thesis
          proof (cases "ch = root")
            case True
            then have "\<not> cmp (at data (first + p)) (at data (first + c)) < 0"
              using he a c unfolding heap_except_def by blast
            then show ?thesis
              using True False a p0 c by (auto simp: sw)
          next
            case chr: False
            have "ch \<noteq> c" using a c False by auto
            then show ?thesis
              using he a p0 False chr unfolding heap_except_def by (auto simp: sw)
          qed
        qed
      next
        fix q ch
        assume a: "lo \<le> q \<and> (c = 2 * q + 1 \<or> c = 2 * q + 2)
          \<and> (ch = 2 * c + 1 \<or> ch = 2 * c + 2) \<and> ch < hi"
        then have q: "q = root" using c by auto
        have ch: "0 \<le> ch" "ch \<noteq> c" "ch \<noteq> root" using a c root by auto
        have "\<not> cmp (at data (first + c)) (at data (first + ch)) < 0"
          using he a c 1(5) unfolding heap_except_def by auto
        then show "\<not> cmp (at d (first + q)) (at d (first + ch)) < 0"
          using q ch root c by (auto simp: sw)
      qed
      have "heap_from cmp (siftDown_loop d c hi first cmp) first lo hi"
        using False lt 1(2-5) c he' swo
        by (intro 1(1) [OF c0_def _ c_def, folded d_def]) (auto simp: c0_def d_def)
      then show ?thesis by (simp add: eq)
    qed
  qed
qed

lemma siftDownCmpFunc_spec:
  assumes "strict_weak_order cmp" "0 \<le> first" "first + hi \<le> int (length data)" "0 \<le> lo"
    "heap_from cmp data first (lo + 1) hi"
  shows "heap_from cmp (siftDownCmpFunc data lo hi first cmp) first lo hi"
    and "swaps first (first + hi) data (siftDownCmpFunc data lo hi first cmp)"
proof -
  have "heap_except cmp data first lo hi lo"
    unfolding heap_except_def
  proof (intro conjI allI impI)
    fix p c assume "lo \<le> p \<and> p \<noteq> lo \<and> (c = 2 * p + 1 \<or> c = 2 * p + 2) \<and> c < hi"
    then have "lo + 1 \<le> p \<and> (c = 2 * p + 1 \<or> c = 2 * p + 2) \<and> c < hi" by auto
    then show "\<not> cmp (at data (first + p)) (at data (first + c)) < 0"
      using assms(5) unfolding heap_from_def by blast
  next
    fix q c assume "lo \<le> q \<and> (lo = 2 * q + 1 \<or> lo = 2 * q + 2)
      \<and> (c = 2 * lo + 1 \<or> c = 2 * lo + 2) \<and> c < hi"
    then have False using assms(4) by auto
    then show "\<not> cmp (at data (first + q)) (at data (first + c)) < 0" ..
  qed
  then show "heap_from cmp (siftDownCmpFunc data lo hi first cmp) first lo hi"
    unfolding siftDownCmpFunc_def using assms by (intro siftDown_loop_heap) auto
  show "swaps first (first + hi) data (siftDownCmpFunc data lo hi first cmp)"
    unfolding siftDownCmpFunc_def using assms by (intro siftDown_loop_swaps) auto
qed

lemma heapSort_build_spec:
  assumes swo: "strict_weak_order cmp"
  shows "0 \<le> first \<Longrightarrow> first + hi \<le> int (length data) \<Longrightarrow> - 1 \<le> i
    \<Longrightarrow> heap_from cmp data first (i + 1) hi
    \<Longrightarrow> heap_from cmp (heapSort_build data i hi first cmp) first 0 hi
      \<and> swaps first (first + hi) data (heapSort_build data i hi first cmp)"
  using swo
proof (induction data i hi first cmp rule: heapSort_build.induct)
  case (1 data i hi first cmp)
  note swo = \<open>strict_weak_order cmp\<close>
  show ?case
  proof (cases "i \<ge> 0")
    case True
    define d where "d = siftDownCmpFunc data i hi first cmp"
    have eq: "heapSort_build data i hi first cmp = heapSort_build d (i - 1) hi first cmp"
      using True by (subst heapSort_build.simps) (simp add: d_def)
    have d: "heap_from cmp d first i hi" "swaps first (first + hi) data d"
      unfolding d_def using True 1(2-) by (auto intro!: siftDownCmpFunc_spec)
    have ld: "length d = length data" using d(2) by (rule swaps_length)
    have "heap_from cmp (heapSort_build d (i - 1) hi first cmp) first 0 hi
      \<and> swaps first (first + hi) d (heapSort_build d (i - 1) hi first cmp)"
      using True 1(2-) d(1) ld by (intro 1(1) [folded d_def]) auto
    then show ?thesis
      unfolding eq using d(2) by (auto intro: swaps_trans)
  next
    case False
    then have eq: "heapSort_build data i hi first cmp = data"
      by (subst heapSort_build.simps) simp
    have "i + 1 = 0" using False 1(4) by simp
    then show ?thesis
      unfolding eq using 1(5) by (simp add: swaps_refl)
  qed
qed

lemma heap_root_max:
  assumes swo: "strict_weak_order cmp" and h: "heap_from cmp data first 0 hi"
  shows "0 \<le> n \<Longrightarrow> n < hi \<Longrightarrow> \<not> cmp (at data first) (at data (first + n)) < 0"
proof (induction "nat n" arbitrary: n rule: less_induct)
  case less
  show ?case
  proof (cases "n = 0")
    case True
    then show ?thesis using swo_irrefl [OF swo] by simp
  next
    case False
    define p where "p = (n - 1) div 2"
    have p: "0 \<le> p" "p < n" "n = 2 * p + 1 \<or> n = 2 * p + 2"
      using False less(2) by (auto simp: p_def)
    then have "\<not> cmp (at data (first + p)) (at data (first + n)) < 0"
      using h less(3) unfolding heap_from_def by blast
    moreover have "\<not> cmp (at data first) (at data (first + p)) < 0"
      using p less(2,3) by (intro less(1)) auto
    ultimately show ?thesis
      using swo_le_trans [OF swo] by blast
  qed
qed

lemma pop_inv_step:
  assumes swo: "strict_weak_order cmp"
    and r: "0 \<le> first" "first + hi \<le> int (length data)" "0 \<le> i" "i < hi"
    and inv: "pop_inv cmp data first hi i"
  shows "pop_inv cmp (siftDownCmpFunc (swap data first (first + i)) 0 i first cmp) first hi (i - 1)"
    and "swaps first (first + hi) data (siftDownCmpFunc (swap data first (first + i)) 0 i first cmp)"
proof -
  define d1 where "d1 = swap data first (first + i)"
  define d2 where "d2 = siftDownCmpFunc d1 0 i first cmp"
  have h: "heap_from cmp data first 0 (i + 1)"
    and so: "sorted_between cmp data (first + i + 1) (first + hi)"
    and cross: "\<And>n m. 0 \<le> n \<Longrightarrow> n \<le> i \<Longrightarrow> i < m \<Longrightarrow> m < hi
          \<Longrightarrow> \<not> cmp (at data (first + m)) (at data (first + n)) < 0"
    using inv unfolding pop_inv_def by auto
  have rmax: "\<not> cmp (at data first) (at data (first + n)) < 0" if "0 \<le> n" "n \<le> i" for n
    using heap_root_max [OF swo h, of n] that by simp
  have l1: "length d1 = length data" by (simp add: d1_def)
  have sw: "at d1 (first + m) =
      (if m = i then at data first else if m = 0 then at data (first + i) else at data (first + m))"
    if "0 \<le> m" for m
    using that r at_swap [of first data "first + i" "first + m"] by (auto simp: d1_def)
  have s1: "swaps first (first + hi) data d1"
    unfolding d1_def using r by (intro swaps_swap) auto
  have h1: "heap_from cmp d1 first (0 + 1) i"
    unfolding heap_from_def
  proof (intro allI impI)
    fix p c assume a: "0 + 1 \<le> p \<and> (c = 2 * p + 1 \<or> c = 2 * p + 2) \<and> c < i"
    then have "\<not> cmp (at data (first + p)) (at data (first + c)) < 0"
      using h unfolding heap_from_def by auto
    then show "\<not> cmp (at d1 (first + p)) (at d1 (first + c)) < 0"
      using a by (auto simp: sw)
  qed
  have d2: "heap_from cmp d2 first 0 i" "swaps first (first + i) d1 d2"
    unfolding d2_def using r l1 h1 swo by (auto intro!: siftDownCmpFunc_spec)
  have l2: "length d2 = length data" using swaps_length [OF d2(2)] l1 by simp
  have out: "at d2 (first + m) = at d1 (first + m)" if "i \<le> m" for m
    using that r by (intro swaps_outside [OF d2(2)]) auto
  have s2: "swaps first (first + hi) d1 d2"
    using swaps_mono [OF d2(2), of first "first + hi"] r l1 by auto
  show "swaps first (first + hi) data (siftDownCmpFunc (swap data first (first + i)) 0 i first cmp)"
    using swaps_trans [OF s1 s2] by (simp add: d2_def d1_def)
  have so2: "sorted_between cmp d2 (first + (i - 1) + 1) (first + hi)"
    unfolding sorted_between_def
  proof (intro allI impI)
    fix k l assume kl: "first + (i - 1) + 1 \<le> k \<and> k < l \<and> l < first + hi"
    define k' l' where "k' = k - first" and "l' = l - first"
    have k: "k = first + k'" "l = first + l'" "i \<le> k'" "k' < l'" "l' < hi"
      using kl by (auto simp: k'_def l'_def)
    show "\<not> cmp (at d2 l) (at d2 k) < 0"
    proof (cases "k' = i")
      case True
      then show ?thesis
        using k r cross [of 0 l'] by (auto simp: out sw)
    next
      case False
      then have "\<not> cmp (at data (first + l')) (at data (first + k')) < 0"
        using so k unfolding sorted_between_def by auto
      then show ?thesis
        using k r False by (auto simp: out sw)
    qed
  qed
  have cross2: "\<not> cmp (at d2 (first + m)) (at d2 (first + n)) < 0"
    if nm: "0 \<le> n" "n \<le> i - 1" "i - 1 < m" "m < hi" for n m
  proof -
    have all1: "\<not> cmp (at d1 (first + m)) (at d1 k) < 0" if "first \<le> k" "k < first + i" for k
    proof -
      define k' where "k' = k - first"
      have k: "k = first + k'" "0 \<le> k'" "k' < i" using that by (auto simp: k'_def)
      show ?thesis
      proof (cases "m = i")
        case True
        then show ?thesis
          using k r rmax [of i] rmax [of k'] by (auto simp: sw)
      next
        case False
        then show ?thesis
          using k r nm cross [of i m] cross [of k' m] by (auto simp: sw)
      qed
    qed
    have "\<not> cmp (at d1 (first + m)) (at d2 (first + n)) < 0"
      using nm all1
      by (intro swaps_all_in [OF d2(2), of "\<lambda>x. \<not> cmp (at d1 (first + m)) x < 0"]) auto
    then show ?thesis using nm by (simp add: out)
  qed
  show "pop_inv cmp (siftDownCmpFunc (swap data first (first + i)) 0 i first cmp) first hi (i - 1)"
    unfolding pop_inv_def d1_def [symmetric] d2_def [symmetric]
    using d2(1) so2 cross2 by auto
qed

lemma heapSort_pop_spec:
  assumes swo: "strict_weak_order cmp"
  shows "0 \<le> first \<Longrightarrow> first + hi \<le> int (length data) \<Longrightarrow> - 1 \<le> i \<Longrightarrow> i < hi
    \<Longrightarrow> lo = 0 \<Longrightarrow> pop_inv cmp data first hi i
    \<Longrightarrow> sorted_between cmp (heapSort_pop data i lo first cmp) first (first + hi)
      \<and> swaps first (first + hi) data (heapSort_pop data i lo first cmp)"
  using swo
proof (induction data i lo first cmp rule: heapSort_pop.induct)
  case (1 data i lo first cmp)
  note swo = \<open>strict_weak_order cmp\<close>
  show ?case
  proof (cases "i \<ge> 0")
    case True
    define d where "d = siftDownCmpFunc (swap data first (first + i)) lo i first cmp"
    have eq: "heapSort_pop data i lo first cmp = heapSort_pop d (i - 1) lo first cmp"
      using True by (subst heapSort_pop.simps) (simp add: d_def)
    have d: "pop_inv cmp d first hi (i - 1)" "swaps first (first + hi) data d"
      unfolding d_def \<open>lo = 0\<close> using True 1(2-) swo by (auto intro!: pop_inv_step)
    have ld: "length d = length data" using d(2) by (rule swaps_length)
    have "sorted_between cmp (heapSort_pop d (i - 1) lo first cmp) first (first + hi)
      \<and> swaps first (first + hi) d (heapSort_pop d (i - 1) lo first cmp)"
      using True 1(2-) d(1) ld by (intro 1(1) [folded d_def]) auto
    then show ?thesis
      unfolding eq using d(2) by (auto intro: swaps_trans)
  next
    case False
    then have eq: "heapSort_pop data i lo first cmp = data"
      by (subst heapSort_pop.simps) simp
    have "i = - 1" using False 1(4) by simp
    then show ?thesis
      unfolding eq using 1(7) by (simp add: swaps_refl pop_inv_def)
  qed
qed

lemma heapSortCmpFunc_spec:
  assumes swo: "strict_weak_order cmp" and r: "0 \<le> a" "a < b" "b \<le> int (length data)"
  shows "sorted_between cmp (heapSortCmpFunc data a b cmp) a b"
    and "swaps a b data (heapSortCmpFunc data a b cmp)"
proof -
  define hi where "hi = b - a"
  define d where "d = heapSort_build data ((hi - 1) div 2) hi a cmp"
  have hi: "0 < hi" "b = a + hi" using r by (auto simp: hi_def)
  have eq: "heapSortCmpFunc data a b cmp = heapSort_pop d (hi - 1) 0 a cmp"
    using hi by (simp add: heapSortCmpFunc_def Let_def hi_def [symmetric] d_def)
  have "heap_from cmp data a ((hi - 1) div 2 + 1) hi"
    unfolding heap_from_def by auto
  then have d: "heap_from cmp d a 0 hi" "swaps a (a + hi) data d"
    unfolding d_def using heapSort_build_spec [OF swo, of a hi data "(hi - 1) div 2"] r hi
    by auto
  have ld: "length d = length data" using d(2) by (rule swaps_length)
  have "pop_inv cmp d a hi (hi - 1)"
    using d(1) by (auto simp: pop_inv_def sorted_between_def)
  then have "sorted_between cmp (heapSort_pop d (hi - 1) 0 a cmp) a (a + hi)
      \<and> swaps a (a + hi) d (heapSort_pop d (hi - 1) 0 a cmp)"
    using r hi ld by (intro heapSort_pop_spec [OF swo]) auto
  then show "sorted_between cmp (heapSortCmpFunc data a b cmp) a b"
    and "swaps a b data (heapSortCmpFunc data a b cmp)"
    unfolding eq using d(2) by (auto simp: hi_def intro: swaps_trans)
qed

subsection \<open>The quicksort loop\<close>

text \<open>
  By induction on the length of the range: \<open>pdqsortCmpFunc\<close> permutes \<open>data[a:b]\<close> and
  leaves it sorted, provided no element of the range is less than \<open>data[a-1]\<close>.
\<close>

lemma pdqsortCmpFunc_unfold:
  "pdqsortCmpFunc data a b limit wasBalanced wasPartitioned cmp =
     (if b - a \<le> 12 then insertionSortCmpFunc data a b cmp
      else if limit = 0 then heapSortCmpFunc data a b cmp
      else
        let d1 = (if \<not> wasBalanced then breakPatternsCmpFunc data a b cmp else data);
            limit1 = (if \<not> wasBalanced then limit - 1 else limit);
            cp = choosePivotCmpFunc d1 a b cmp;
            d2 = (if snd cp = decreasingHint then reverseRangeCmpFunc d1 a b cmp else d1);
            pivot = (if snd cp = decreasingHint then b - 1 - (fst cp - a) else fst cp);
            hint = (if snd cp = decreasingHint then increasingHint else snd cp);
            pis = (if wasBalanced \<and> wasPartitioned \<and> hint = increasingHint
                   then partialInsertionSortCmpFunc d2 a b cmp else (d2, False));
            d3 = fst pis
        in if snd pis then d3
           else if a > 0 \<and> \<not> (cmp (at d3 (a - 1)) (at d3 pivot) < 0) then
             let pe = partitionEqualCmpFunc d3 a b pivot cmp
             in pdqsortCmpFunc (fst pe) (snd pe) b limit1 wasBalanced wasPartitioned cmp
           else
             let pt = partitionCmpFunc d3 a b pivot cmp;
                 d4 = fst pt; mid = fst (snd pt); wasPartitioned' = snd (snd pt)
             in if mid - a < b - mid then
                  pdqsortCmpFunc
                    (pdqsortCmpFunc d4 a mid limit1 True True cmp)
                    (mid + 1) b limit1 (mid - a \<ge> (b - a) sdiv 8) wasPartitioned' cmp
                else
                  pdqsortCmpFunc
                    (pdqsortCmpFunc d4 (mid + 1) b limit1 True True cmp)
                    a mid limit1 (b - mid \<ge> (b - a) sdiv 8) wasPartitioned' cmp)"
  by (subst pdqsortCmpFunc.simps)
    (simp add: Let_def case_prod_beta if_distrib [of fst] if_distrib [of snd]
      split del: if_split cong: if_cong)

lemma sorted_between_combine:
  assumes swo: "strict_weak_order cmp"
    and l: "sorted_between cmp out a mid" and r: "sorted_between cmp out (mid + 1) b"
    and lt: "\<And>k. a \<le> k \<Longrightarrow> k < mid \<Longrightarrow> cmp (at out k) (at out mid) < 0"
    and ge: "\<And>k. mid < k \<Longrightarrow> k < b \<Longrightarrow> \<not> cmp (at out k) (at out mid) < 0"
  shows "sorted_between cmp out a b"
  unfolding sorted_between_def
proof (intro allI impI)
  fix i j assume ij: "a \<le> i \<and> i < j \<and> j < b"
  consider "j < mid" | "j = mid" | "i < mid" "mid < j" | "i = mid" | "mid < i"
    using ij by linarith
  then show "\<not> cmp (at out j) (at out i) < 0"
  proof cases
    case 1
    then show ?thesis using l ij by (auto simp: sorted_between_def)
  next
    case 2
    then show ?thesis using lt [of i] ij swo_asym [OF swo] by auto
  next
    case 3
    then show ?thesis using lt [of i] ge [of j] ij swo_trans [OF swo] by blast
  next
    case 4
    then show ?thesis using ge [of j] ij by auto
  next
    case 5
    then show ?thesis using r ij by (auto simp: sorted_between_def)
  qed
qed

lemma pdqsortCmpFunc_spec:
  assumes swo: "strict_weak_order cmp"
  shows "0 \<le> a \<Longrightarrow> a \<le> b \<Longrightarrow> b \<le> int (length data) \<Longrightarrow> length data < 2 ^ 63
    \<Longrightarrow> lower_bounded cmp data a b
    \<Longrightarrow> swaps a b data (pdqsortCmpFunc data a b limit wasBalanced wasPartitioned cmp)
      \<and> sorted_between cmp (pdqsortCmpFunc data a b limit wasBalanced wasPartitioned cmp) a b"
proof (induction "nat (b - a)" arbitrary: data a b limit wasBalanced wasPartitioned rule: less_induct)
  case less
  note r = less(2-4) and len63 = less(5) and lb = less(6)
  note IH = less(1)
  consider (ins) "b - a \<le> 12" | (heap) "\<not> b - a \<le> 12" "limit = 0"
    | (quick) "\<not> b - a \<le> 12" "limit \<noteq> 0"
    by blast
  then show ?case
  proof cases
    case ins
    then have "pdqsortCmpFunc data a b limit wasBalanced wasPartitioned cmp =
        insertionSortCmpFunc data a b cmp"
      by (subst pdqsortCmpFunc_unfold) simp
    then show ?thesis
      using r swo by (simp add: insertionSortCmpFunc_swaps insertionSortCmpFunc_sorted)
  next
    case heap
    then have "pdqsortCmpFunc data a b limit wasBalanced wasPartitioned cmp =
        heapSortCmpFunc data a b cmp"
      by (subst pdqsortCmpFunc_unfold) simp
    then show ?thesis
      using r swo heap heapSortCmpFunc_spec [of cmp a b data] by simp
  next
    case quick
    define d1 where "d1 = (if \<not> wasBalanced then breakPatternsCmpFunc data a b cmp else data)"
    define limit1 where "limit1 = (if \<not> wasBalanced then limit - 1 else limit)"
    define cp where "cp = choosePivotCmpFunc d1 a b cmp"
    define d2 where "d2 = (if snd cp = decreasingHint then reverseRangeCmpFunc d1 a b cmp else d1)"
    define pivot where "pivot = (if snd cp = decreasingHint then b - 1 - (fst cp - a) else fst cp)"
    define hint where "hint = (if snd cp = decreasingHint then increasingHint else snd cp)"
    define pis where "pis = (if wasBalanced \<and> wasPartitioned \<and> hint = increasingHint
                   then partialInsertionSortCmpFunc d2 a b cmp else (d2, False))"
    define d3 where "d3 = fst pis"
    have ab: "a < b" using quick by simp
    have "b - a < 2 ^ 63" using r len63 by simp
    then have s1: "swaps a b data d1"
      unfolding d1_def using r by (auto intro: breakPatternsCmpFunc_swaps swaps_refl)
    have l1: "length d1 = length data" using s1 by (rule swaps_length)
    have p0: "a \<le> fst cp" "fst cp < b"
      unfolding cp_def using choosePivotCmpFunc_range [OF ab, of d1 cmp] by simp_all
    then have pv: "a \<le> pivot" "pivot < b"
      by (auto simp: pivot_def)
    have s2: "swaps a b d1 d2"
      unfolding d2_def using r l1 by (auto intro: reverseRangeCmpFunc_swaps swaps_refl)
    have l2: "length d2 = length data" using swaps_length [OF s2] l1 by simp
    have lb2: "lower_bounded cmp d2 a b"
      using lower_bounded_swaps [OF swaps_trans [OF s1 s2] lb] .
    have s3: "swaps a b d2 d3"
      unfolding d3_def pis_def using r ab l2 lb2 swo
      by (auto intro: partialInsertionSortCmpFunc_spec swaps_refl)
    have so3: "snd pis \<Longrightarrow> sorted_between cmp d3 a b"
      unfolding d3_def pis_def using r ab l2 lb2 swo
      by (auto intro: partialInsertionSortCmpFunc_spec split: if_splits)
    have l3: "length d3 = length data" using swaps_length [OF s3] l2 by simp
    have s: "swaps a b data d3"
      by (rule swaps_trans [OF swaps_trans [OF s1 s2] s3])
    have lb3: "lower_bounded cmp d3 a b"
      using lower_bounded_swaps [OF s lb] .
    note defs = d3_def pis_def hint_def pivot_def d2_def cp_def limit1_def d1_def
    consider (sorted) "snd pis"
      | (equal) "\<not> snd pis" "a > 0 \<and> \<not> (cmp (at d3 (a - 1)) (at d3 pivot) < 0)"
      | (part) "\<not> snd pis" "\<not> (a > 0 \<and> \<not> (cmp (at d3 (a - 1)) (at d3 pivot) < 0))"
      by blast
    then show ?thesis
    proof cases
      case sorted
      have "pdqsortCmpFunc data a b limit wasBalanced wasPartitioned cmp = d3"
        using quick sorted unfolding defs
        by (subst pdqsortCmpFunc_unfold) (simp only: Let_def if_True if_False simp_thms)
      then show ?thesis using s so3 sorted by simp
    next
      case equal
      define pe where "pe = partitionEqualCmpFunc d3 a b pivot cmp"
      define d4 where "d4 = fst pe"
      define mid where "mid = snd pe"
      define out where "out = pdqsortCmpFunc d4 mid b limit1 wasBalanced wasPartitioned cmp"
      have eq: "pdqsortCmpFunc data a b limit wasBalanced wasPartitioned cmp = out"
        using quick equal unfolding out_def d4_def mid_def pe_def defs
        by (subst pdqsortCmpFunc_unfold) (simp only: Let_def if_True if_False simp_thms)
      have pe: "partitionEqualCmpFunc d3 a b pivot cmp = (d4, mid)"
        by (simp add: pe_def d4_def mid_def)
      have r3: "0 \<le> a" "a < b" "b \<le> int (length d3)" using r ab l3 by simp_all
      note spec = partitionEqualCmpFunc_spec [OF r3 pv pe]
      define p where "p = at d3 pivot"
      have s4: "swaps a b d3 d4" by (rule spec(1))
      have l4: "length d4 = length data" using swaps_length [OF s4] l3 by simp
      have lb4: "lower_bounded cmp d4 a b"
        using lower_bounded_swaps [OF s4 lb3] .
      have w: "at d4 (a - 1) = at d3 (a - 1)"
        using equal by (intro swaps_outside [OF s4]) auto
      have le_p: "\<not> cmp p (at d4 k) < 0" if "a \<le> k" "k < mid" for k
        using that spec(4) spec(5) [of k] swo_irrefl [OF swo] unfolding p_def by (cases "k = a") auto
      have gt_p: "cmp p (at d4 k) < 0" if "mid \<le> k" "k < b" for k
        using that spec(6) [of k] unfolding p_def by auto
      have ge_p: "\<not> cmp (at d4 k) p < 0" if "a \<le> k" "k < b" for k
      proof -
        have "\<not> cmp (at d4 k) (at d4 (a - 1)) < 0"
          using lb4 that equal unfolding lower_bounded_def by auto
        moreover have "\<not> cmp (at d4 (a - 1)) p < 0"
          using equal w by (simp add: p_def)
        ultimately show ?thesis using swo_le_trans [OF swo] by blast
      qed
      have lbm: "lower_bounded cmp d4 mid b"
        unfolding lower_bounded_def
      proof (intro impI allI)
        fix k assume "0 < mid" and k: "mid \<le> k \<and> k < b"
        have "\<not> cmp p (at d4 (mid - 1)) < 0" using spec(2) by (intro le_p) auto
        moreover have "cmp p (at d4 k) < 0" using k by (intro gt_p) auto
        ultimately show "\<not> cmp (at d4 k) (at d4 (mid - 1)) < 0"
          using swo_trans [OF swo] by blast
      qed
      have "nat (b - mid) < nat (b - a)" using spec(2,3) ab by simp
      then have "swaps mid b d4 out \<and> sorted_between cmp out mid b"
        unfolding out_def using r spec(2,3) l4 len63 lbm by (intro IH) auto
      then have ih: "swaps mid b d4 out" "sorted_between cmp out mid b"
        by simp_all
      have so: "swaps a b d4 out"
        using swaps_mono [OF ih(1), of a b] r spec(2) l4 by auto
      have outl: "at out k = at d4 k" if "a \<le> k" "k < mid" for k
        using that r by (intro swaps_outside [OF ih(1)]) auto
      have outr: "cmp p (at out k) < 0" if "mid \<le> k" "k < b" for k
        using that gt_p by (intro swaps_all_in [OF ih(1), of "\<lambda>x. cmp p x < 0"]) auto
      have "sorted_between cmp out a b"
        unfolding sorted_between_def
      proof (intro allI impI)
        fix i j assume ij: "a \<le> i \<and> i < j \<and> j < b"
        consider "j < mid" | "i < mid" "mid \<le> j" | "mid \<le> i" by linarith
        then show "\<not> cmp (at out j) (at out i) < 0"
        proof cases
          case 1
          then have "\<not> cmp (at d4 j) p < 0" "\<not> cmp p (at d4 i) < 0"
            using ij spec(3) ge_p [of j] le_p [of i] by auto
          then have "\<not> cmp (at d4 j) (at d4 i) < 0"
            using swo_le_trans [OF swo] by blast
          then show ?thesis using 1 ij by (simp add: outl)
        next
          case 2
          then have "\<not> cmp p (at d4 i) < 0" "cmp p (at out j) < 0"
            using ij le_p [of i] outr [of j] by auto
          then have "\<not> cmp (at out j) (at d4 i) < 0"
            using swo_trans [OF swo] by blast
          then show ?thesis using 2 ij by (simp add: outl)
        next
          case 3
          then show ?thesis using ih(2) ij by (auto simp: sorted_between_def)
        qed
      qed
      then show ?thesis
        unfolding eq using swaps_trans [OF swaps_trans [OF s s4] so] by simp
    next
      case part
      define pt where "pt = partitionCmpFunc d3 a b pivot cmp"
      define d4 where "d4 = fst pt"
      define mid where "mid = fst (snd pt)"
      define wP where "wP = snd (snd pt)"
      have pt: "partitionCmpFunc d3 a b pivot cmp = (d4, mid, wP)"
        by (simp add: pt_def d4_def mid_def wP_def)
      have r3: "0 \<le> a" "a < b" "b \<le> int (length d3)" using r ab l3 by simp_all
      note spec = partitionCmpFunc_spec [OF r3 pv pt]
      have s4: "swaps a b d3 d4" by (rule spec(1))
      have l4: "length d4 = length data" using swaps_length [OF s4] l3 by simp
      have lb4: "lower_bounded cmp d4 a b"
        using lower_bounded_swaps [OF s4 lb3] .
      have sd4: "swaps a b data d4" by (rule swaps_trans [OF s s4])
      have lbl: "lower_bounded cmp d4 a mid"
        using lower_bounded_subrange [OF lb4, of mid] spec(3) by simp
      have lbr: "lower_bounded cmp d4 (mid + 1) b"
        unfolding lower_bounded_def using spec(5) by auto
      show ?thesis
      proof (cases "mid - a < b - mid")
        case True
        define wB where "wB = (mid - a \<ge> (b - a) sdiv 8)"
        define out1 where "out1 = pdqsortCmpFunc d4 a mid limit1 True True cmp"
        define out where "out = pdqsortCmpFunc out1 (mid + 1) b limit1 wB wP cmp"
        have eq: "pdqsortCmpFunc data a b limit wasBalanced wasPartitioned cmp = out"
          using quick part True unfolding out_def out1_def wB_def wP_def d4_def mid_def pt_def defs
          by (subst pdqsortCmpFunc_unfold) (simp only: Let_def if_True if_False simp_thms)
        have "nat (mid - a) < nat (b - a)" using spec(2,3) by simp
        then have "swaps a mid d4 out1 \<and> sorted_between cmp out1 a mid"
          unfolding out1_def using r spec(2,3) l4 len63 lbl by (intro IH) auto
        then have ih1: "swaps a mid d4 out1" "sorted_between cmp out1 a mid"
          by simp_all
        have lo1: "length out1 = length data" using swaps_length [OF ih1(1)] l4 by simp
        have o1r: "at out1 k = at d4 k" if "mid \<le> k" for k
          using that r spec(2) by (intro swaps_outside [OF ih1(1)]) auto
        have lbr1: "lower_bounded cmp out1 (mid + 1) b"
          using lbr unfolding lower_bounded_def by (auto simp: o1r)
        have "nat (b - (mid + 1)) < nat (b - a)" using spec(2,3) by simp
        then have "swaps (mid + 1) b out1 out \<and> sorted_between cmp out (mid + 1) b"
          unfolding out_def using r spec(2,3) lo1 len63 lbr1 by (intro IH) auto
        then have ih2: "swaps (mid + 1) b out1 out" "sorted_between cmp out (mid + 1) b"
          by simp_all
        have ol: "at out k = at out1 k" if "0 \<le> k" "k \<le> mid" for k
          using that by (intro swaps_outside [OF ih2(1)]) auto
        have om: "at out mid = at d4 mid"
          using r spec(2) by (simp add: ol o1r)
        have lt: "cmp (at out k) (at out mid) < 0" if "a \<le> k" "k < mid" for k
        proof -
          have "cmp (at out1 k) (at d4 mid) < 0"
            using that spec(4)
            by (intro swaps_all_in [OF ih1(1), of "\<lambda>x. cmp x (at d4 mid) < 0"]) auto
          then show ?thesis using that r by (simp add: ol om)
        qed
        have ge: "\<not> cmp (at out k) (at out mid) < 0" if "mid < k" "k < b" for k
        proof -
          have "\<not> cmp (at out k) (at d4 mid) < 0"
            using that spec(5)
            by (intro swaps_all_in [OF ih2(1), of "\<lambda>x. \<not> cmp x (at d4 mid) < 0"])
              (auto simp: o1r)
          then show ?thesis by (simp add: om)
        qed
        have "sorted_between cmp out a mid"
          using ih1(2) r unfolding sorted_between_def by (auto simp: ol)
        then have "sorted_between cmp out a b"
          using ih2(2) lt ge by (intro sorted_between_combine [OF swo, of out a mid b]) auto
        moreover have "swaps a b data out"
          using swaps_trans [OF swaps_trans [OF sd4 swaps_mono [OF ih1(1), of a b]]
              swaps_mono [OF ih2(1), of a b]] r spec(2,3) l4 lo1 by auto
        ultimately show ?thesis by (simp add: eq)
      next
        case False
        define wB where "wB = (b - mid \<ge> (b - a) sdiv 8)"
        define out1 where "out1 = pdqsortCmpFunc d4 (mid + 1) b limit1 True True cmp"
        define out where "out = pdqsortCmpFunc out1 a mid limit1 wB wP cmp"
        have eq: "pdqsortCmpFunc data a b limit wasBalanced wasPartitioned cmp = out"
          using quick part False unfolding out_def out1_def wB_def wP_def d4_def mid_def pt_def defs
          by (subst pdqsortCmpFunc_unfold) (simp only: Let_def if_True if_False simp_thms)
        have "nat (b - (mid + 1)) < nat (b - a)" using spec(2,3) by simp
        then have "swaps (mid + 1) b d4 out1 \<and> sorted_between cmp out1 (mid + 1) b"
          unfolding out1_def using r spec(2,3) l4 len63 lbr by (intro IH) auto
        then have ih1: "swaps (mid + 1) b d4 out1" "sorted_between cmp out1 (mid + 1) b"
          by simp_all
        have lo1: "length out1 = length data" using swaps_length [OF ih1(1)] l4 by simp
        have o1l: "at out1 k = at d4 k" if "0 \<le> k" "k \<le> mid" for k
          using that by (intro swaps_outside [OF ih1(1)]) auto
        have lbl1: "lower_bounded cmp out1 a mid"
          using lbl r unfolding lower_bounded_def by (auto simp: o1l)
        have "nat (mid - a) < nat (b - a)" using spec(2,3) by simp
        then have "swaps a mid out1 out \<and> sorted_between cmp out a mid"
          unfolding out_def using r spec(2,3) lo1 len63 lbl1 by (intro IH) auto
        then have ih2: "swaps a mid out1 out" "sorted_between cmp out a mid"
          by simp_all
        have orr: "at out k = at out1 k" if "mid \<le> k" for k
          using that r spec(2) by (intro swaps_outside [OF ih2(1)]) auto
        have om: "at out mid = at d4 mid"
          using r spec(2) by (simp add: orr o1l)
        have lt: "cmp (at out k) (at out mid) < 0" if "a \<le> k" "k < mid" for k
        proof -
          have "cmp (at out k) (at d4 mid) < 0"
            using that spec(4) r
            by (intro swaps_all_in [OF ih2(1), of "\<lambda>x. cmp x (at d4 mid) < 0"])
              (auto simp: o1l)
          then show ?thesis by (simp add: om)
        qed
        have ge: "\<not> cmp (at out k) (at out mid) < 0" if "mid < k" "k < b" for k
        proof -
          have "\<not> cmp (at out1 k) (at d4 mid) < 0"
            using that spec(5)
            by (intro swaps_all_in [OF ih1(1), of "\<lambda>x. \<not> cmp x (at d4 mid) < 0"]) auto
          then show ?thesis using that by (simp add: orr om)
        qed
        have "sorted_between cmp out (mid + 1) b"
          using ih1(2) unfolding sorted_between_def by (auto simp: orr)
        then have "sorted_between cmp out a b"
          using ih2(2) lt ge by (intro sorted_between_combine [OF swo, of out a mid b]) auto
        moreover have "swaps a b data out"
          using swaps_trans [OF swaps_trans [OF sd4 swaps_mono [OF ih1(1), of a b]]
              swaps_mono [OF ih2(1), of a b]] r spec(2,3) l4 lo1 by auto
        ultimately show ?thesis by (simp add: eq)
      qed
    qed
  qed
qed

text \<open>
  \<open>slices.SortFunc\<close> returns a sorted permutation of a slice of fewer than \<open>2^62\<close>
  elements. Below that length no index computation of the sort (the largest is
  \<open>2*root + 1\<close> in \<open>siftDownCmpFunc\<close>) overflows Go's \<open>int\<close>, so that the integers of the
  model are the \<open>int\<close>s of the code.
\<close>

lemma SortFunc_spec:
  assumes "strict_weak_order cmp" "length x < 2 ^ 62"
  shows "mset (SortFunc x cmp) = mset x"
    and "sorted_wrt (\<lambda>u v. \<not> cmp v u < 0) (SortFunc x cmp)"
proof -
  define out where "out = SortFunc x cmp"
  have "(2 :: nat) ^ 62 \<le> 2 ^ 63" by simp
  then have "length x < 2 ^ 63" using assms(2) by linarith
  then have spec: "swaps 0 (int (length x)) x out" "sorted_between cmp out 0 (int (length x))"
    unfolding out_def SortFunc_def Let_def
    using pdqsortCmpFunc_spec [OF assms(1), of 0 "int (length x)" x]
    by (simp_all add: lower_bounded_def)
  have l: "length out = length x" using spec(1) by (rule swaps_length)
  show "mset (SortFunc x cmp) = mset x"
    using swaps_mset [OF spec(1)] by (simp add: out_def)
  have "\<not> cmp (out ! j) (out ! i) < 0" if "i < j" "j < length out" for i j
    using spec(2) that l unfolding sorted_between_def at_def
    by (metis nat_int of_nat_0_le_iff of_nat_less_iff)
  then show "sorted_wrt (\<lambda>u v. \<not> cmp v u < 0) (SortFunc x cmp)"
    unfolding out_def [symmetric] by (simp add: sorted_wrt_iff_nth_less)
qed

section \<open>Order and OrderBy\<close>

lemma strict_weak_order_cmp_Compare: "strict_weak_order cmp_Compare"
  unfolding strict_weak_order_def cmp_Compare_def
  by (auto simp: word_sless_alt)

lemma strict_weak_order_snd:
  "strict_weak_order cmp \<Longrightarrow> strict_weak_order (\<lambda>x y. cmp (snd x) (snd y))"
  unfolding strict_weak_order_def by blast

lemma OrderBy_collect:
  "FromSlice xs (\<lambda>item result. Inr (True, result @ [(item, f item)])) ys
     = Inr (ys @ map (\<lambda>x. (x, f x)) xs)"
  by (induction xs arbitrary: ys) simp_all

lemma Iterator_Order_FromSlice:
  assumes "resolved_comparison comparable natural compare = Some cmp"
  shows "ToSlice (Iterator_Order comparable natural (FromSlice xs) compare) = Inr (SortFunc xs cmp)"
proof (cases compare)
  case Nil
  then show ?thesis
    using assms
    by (auto simp: resolved_comparison_def ToSlice_def Iterator_Order_def ToSlice_FromSlice_aux
        split: option.splits)
next
  case (Cons c cs)
  then show ?thesis
    using assms
    by (simp add: resolved_comparison_def ToSlice_def Iterator_Order_def ToSlice_FromSlice_aux)
qed

lemma OrderBy_FromSlice:
  "ToSlice (OrderBy cmpCompare (FromSlice xs) valueSelector compare)
     = Inr (map fst (SortFunc (map (\<lambda>x. (x, valueSelector x)) xs)
              (\<lambda>x y. resolved_key_comparison cmpCompare compare (snd x) (snd y))))"
  by (cases compare)
    (simp_all add: resolved_key_comparison_def ToSlice_def OrderBy_def OrderBy_collect
      ToSlice_FromSlice_aux Let_def)

lemma OrderBy_sorted:
  fixes f :: "'a \<Rightarrow> 'v" and ys :: "'a list"
  assumes "strict_weak_order kcmp" "length ys < 2 ^ 62"
  defines "out \<equiv> map fst (SortFunc (map (\<lambda>x. (x, f x)) ys) (\<lambda>x y. kcmp (snd x) (snd y)))"
  shows "mset out = mset ys"
    and "sorted_wrt (\<lambda>x y. \<not> kcmp (f y) (f x) < 0) out"
proof -
  let ?ps = "map (\<lambda>x. (x, f x)) ys"
  let ?c = "\<lambda>x y. kcmp (snd x) (snd y)"
  have swo: "strict_weak_order ?c" using assms(1) by (rule strict_weak_order_snd)
  have len: "length ?ps < 2 ^ 62" using assms(2) by simp
  have m: "mset (SortFunc ?ps ?c) = mset ?ps" by (rule SortFunc_spec(1) [OF swo len])
  have s: "sorted_wrt (\<lambda>u v. \<not> ?c v u < 0) (SortFunc ?ps ?c)" by (rule SortFunc_spec(2) [OF swo len])
  have "mset out = image_mset fst (mset (SortFunc ?ps ?c))" by (simp add: out_def)
  also have "\<dots> = image_mset fst (mset ?ps)" by (simp only: m)
  also have "\<dots> = mset ys" by (simp add: image_mset.compositionality comp_def)
  finally show "mset out = mset ys" .
  have "set (SortFunc ?ps ?c) = set ?ps" using m by (metis set_mset_mset)
  then have key: "snd p = f (fst p)" if "p \<in> set (SortFunc ?ps ?c)" for p
  proof -
    from that \<open>set (SortFunc ?ps ?c) = set ?ps\<close> have "p \<in> set ?ps" by (simp only:)
    then obtain x where "p = (x, f x)" by (auto simp: image_iff)
    then show ?thesis by simp
  qed
  have "sorted_wrt (\<lambda>u v. \<not> kcmp (f (fst v)) (f (fst u)) < 0) (SortFunc ?ps ?c)"
  proof (rule sorted_wrt_mono_rel [OF _ s])
    fix u v
    assume "u \<in> set (SortFunc ?ps ?c)" "v \<in> set (SortFunc ?ps ?c)" "\<not> kcmp (snd v) (snd u) < 0"
    then show "\<not> kcmp (f (fst v)) (f (fst u)) < 0"
      using key [of u] key [of v] by metis
  qed
  then show "sorted_wrt (\<lambda>x y. \<not> kcmp (f y) (f x) < 0) out"
    by (simp add: out_def sorted_wrt_map)
qed

text \<open>
  C2, without the stability: when the resolved comparison is a strict weak ordering, which
  is what \<open>slices.SortFunc\<close> asks of it, \<open>Order\<close> yields a permutation of the input in
  which no element is less than an earlier one, and \<open>OrderBy\<close> yields a permutation of the
  input in which no element's projected key is less than an earlier one's. \<open>Order\<close>
  resolves to the supplied comparison, else to the \<open>Compare\<close> method, else to
  \<open>cmp.Compare\<close>; \<open>OrderBy\<close> to the supplied comparison of keys, else to \<open>cmp.Compare\<close>.
  The bound on the length is the range of the model, which computes the indices of the
  sort in the integers: below \<open>2^62\<close> elements Go's \<open>int\<close> computes the same, and no slice
  whose elements occupy memory comes near that length.
\<close>

theorem Order_sorted_permutation:
  assumes "resolved_comparison comparable natural compare = Some cmp"
    and "strict_weak_order cmp"
    and "length xs < 2 ^ 62"
    and "strict_weak_order (resolved_key_comparison cmpCompare compareKeys)"
    and "length ys < 2 ^ 62"
  shows "(\<exists>out. ToSlice (Iterator_Order comparable natural (FromSlice xs) compare) = Inr out
            \<and> mset out = mset xs
            \<and> sorted_wrt (\<lambda>x y. \<not> cmp y x < 0) out)
       \<and> (\<exists>out. ToSlice (OrderBy cmpCompare (FromSlice ys) valueSelector compareKeys) = Inr out
            \<and> mset out = mset ys
            \<and> sorted_wrt (\<lambda>x y. \<not> resolved_key_comparison cmpCompare compareKeys
                                       (valueSelector y) (valueSelector x) < 0) out)"
proof (intro conjI)
  show "\<exists>out. ToSlice (Iterator_Order comparable natural (FromSlice xs) compare) = Inr out
            \<and> mset out = mset xs \<and> sorted_wrt (\<lambda>x y. \<not> cmp y x < 0) out"
    using Iterator_Order_FromSlice [OF assms(1)] SortFunc_spec [OF assms(2,3)] by simp
  show "\<exists>out. ToSlice (OrderBy cmpCompare (FromSlice ys) valueSelector compareKeys) = Inr out
            \<and> mset out = mset ys
            \<and> sorted_wrt (\<lambda>x y. \<not> resolved_key_comparison cmpCompare compareKeys
                                       (valueSelector y) (valueSelector x) < 0) out"
    using OrderBy_FromSlice [of cmpCompare ys valueSelector compareKeys]
      OrderBy_sorted [OF assms(4,5), of valueSelector] by simp
qed

text \<open>
  The theorem at \<open>[3, 1, 2]\<close> for \<open>Order\<close> and at four tagged keys for \<open>OrderBy\<close>, both
  under \<open>cmp.Compare\<close>.
\<close>

theorem Order_sorted_permutation_witness:
  "resolved_comparison None (Some cmp_Compare) [] = Some cmp_Compare
   \<and> strict_weak_order cmp_Compare
   \<and> length [3, 1, 2 :: go_int] < 2 ^ 62
   \<and> strict_weak_order (resolved_key_comparison cmp_Compare [])
   \<and> length [(0, 2), (1, 1), (2, 2), (3, 1) :: go_int \<times> go_int] < 2 ^ 62
   \<and> (\<exists>out. ToSlice (Iterator_Order None (Some cmp_Compare) (FromSlice [3, 1, 2]) []) = Inr out
         \<and> mset out = mset [3, 1, 2]
         \<and> sorted_wrt (\<lambda>x y. \<not> cmp_Compare y x < 0) out)
   \<and> (\<exists>out. ToSlice (OrderBy cmp_Compare (FromSlice [(0, 2), (1, 1), (2, 2), (3, 1)]) snd []) = Inr out
         \<and> mset out = mset [(0, 2), (1, 1), (2, 2), (3, 1)]
         \<and> sorted_wrt (\<lambda>x y. \<not> resolved_key_comparison cmp_Compare [] (snd y) (snd x) < 0) out)"
proof -
  have r: "resolved_comparison None (Some cmp_Compare) [] = Some cmp_Compare"
    by (simp add: resolved_comparison_def)
  have k: "resolved_key_comparison cmp_Compare [] = cmp_Compare"
    by (simp add: resolved_key_comparison_def)
  have s: "strict_weak_order (resolved_key_comparison cmp_Compare [])"
    unfolding k by (rule strict_weak_order_cmp_Compare)
  show ?thesis
    using Order_sorted_permutation [OF r strict_weak_order_cmp_Compare _ s,
        of "[3, 1, 2]" "[(0, 2), (1, 1), (2, 2), (3, 1)]" snd]
      r s strict_weak_order_cmp_Compare
    by simp
qed

text \<open>
  C2 as stated fails twice. The sort is not stable: \<open>OrderBy\<close> on the thirteen tagged
  keys, ordered by the key under \<open>cmp.Compare\<close>, yields the twelve elements of key 1 with
  the tags in the order 6, 2, 3, 4, 5, 0, 7, 8, 9, 10, 11, 1. For thirteen elements
  \<open>pdqsortCmpFunc\<close> does not take the insertion sort but partitions around the element in
  the middle, which it first exchanges with the first one. \<open>Order\<close> with a comparison of
  the keys yields the same. And the output is not non-decreasing under every resolved
  comparison: under the supplied comparison that answers \<open>-1\<close> for every pair, \<open>Order\<close> on
  \<open>[1, 2]\<close> yields \<open>[2, 1]\<close>, and no arrangement of two elements is non-decreasing.
\<close>

theorem Order_not_stable_counterexample:
  "(\<exists>out. ToSlice (OrderBy cmp_Compare (FromSlice tagged_keys) snd []) = Inr out
       \<and> out = [(12, 0), (6, 1), (2, 1), (3, 1), (4, 1), (5, 1), (0, 1), (7, 1), (8, 1),
                (9, 1), (10, 1), (11, 1), (1, 1)]
       \<and> filter (\<lambda>x. snd x = 1) out \<noteq> filter (\<lambda>x. snd x = 1) tagged_keys)
   \<and> (\<exists>out. ToSlice (Iterator_Order None None (FromSlice tagged_keys)
                  [\<lambda>x y. cmp_Compare (snd x) (snd y)]) = Inr out
       \<and> out = [(12, 0), (6, 1), (2, 1), (3, 1), (4, 1), (5, 1), (0, 1), (7, 1), (8, 1),
                (9, 1), (10, 1), (11, 1), (1, 1)]
       \<and> filter (\<lambda>x. snd x = 1) out \<noteq> filter (\<lambda>x. snd x = 1) tagged_keys)
   \<and> (\<exists>out. ToSlice (Iterator_Order None None (FromSlice [1, 2 :: go_int]) [\<lambda>x y. - 1])
           = Inr out
       \<and> out = [2, 1]
       \<and> \<not> sorted_wrt (\<lambda>x y. \<not> (\<lambda>x y. - 1 :: int) y x < 0) out)
   \<and> \<not> strict_weak_order (\<lambda>(x :: go_int) (y :: go_int). - 1 :: int)"
proof -
  have by_key: "ToSlice (OrderBy cmp_Compare (FromSlice tagged_keys) snd [])
      = Inr [(12, 0), (6, 1), (2, 1), (3, 1), (4, 1), (5, 1), (0, 1), (7, 1), (8, 1),
             (9, 1), (10, 1), (11, 1), (1, 1)]"
    by code_simp
  have by_comparison: "ToSlice (Iterator_Order None None (FromSlice tagged_keys)
        [\<lambda>x y. cmp_Compare (snd x) (snd y)])
      = Inr [(12, 0), (6, 1), (2, 1), (3, 1), (4, 1), (5, 1), (0, 1), (7, 1), (8, 1),
             (9, 1), (10, 1), (11, 1), (1, 1)]"
    by code_simp
  have always_less: "ToSlice (Iterator_Order None None (FromSlice [1, 2 :: go_int]) [\<lambda>x y. - 1])
      = Inr [2, 1]"
    by code_simp
  show ?thesis
    unfolding by_key by_comparison always_less
    by (simp add: tagged_keys_def strict_weak_order_def)
qed

end
